theory Spec2Isabelle
  imports Main
begin

section \<open>Exceptions, outcomes and sequencing\<close>

text \<open>
  The model of \<^verbatim>\<open>jinja2.utils.LRUCache\<close>. A method call either returns a value, raises
  one of Python's exceptions, or never returns because it waits for a lock that is held
  (\<^verbatim>\<open>threading.Lock\<close> is not reentrant). The state is returned in every case, since an
  exception may be raised after a mutation.
\<close>

datatype exn = KeyError | ValueError | IndexError | RuntimeError | AttributeError

datatype 'a outcome = Returns 'a | Raises exn | Blocks

type_synonym ('s, 'a) prog = "'s \<Rightarrow> 'a outcome \<times> 's"

definition return :: "'a \<Rightarrow> ('s, 'a) prog" where
  "return x = (\<lambda>s. (Returns x, s))"

definition bindM :: "('s, 'a) prog \<Rightarrow> ('a \<Rightarrow> ('s, 'b) prog) \<Rightarrow> ('s, 'b) prog" where
  "bindM m f = (\<lambda>s. case m s of
      (Returns x, s') \<Rightarrow> f x s'
    | (Raises e, s') \<Rightarrow> (Raises e, s')
    | (Blocks, s') \<Rightarrow> (Blocks, s'))"

text \<open>\<^verbatim>\<open>try: m  except e: handler\<close>\<close>

definition try_except :: "('s, 'a) prog \<Rightarrow> exn \<Rightarrow> ('s, 'a) prog \<Rightarrow> ('s, 'a) prog" where
  "try_except m e handler = (\<lambda>s. case m s of
      (Raises e', s') \<Rightarrow> if e' = e then handler s' else (Raises e', s')
    | (Returns x, s') \<Rightarrow> (Returns x, s')
    | (Blocks, s') \<Rightarrow> (Blocks, s'))"

text \<open>\<^verbatim>\<open>try: m  finally: fin\<close>: the finaliser runs after a return and after a raise, and the
  outcome of the body stands unless the finaliser itself fails.\<close>

definition try_finally :: "('s, 'a) prog \<Rightarrow> ('s, unit) prog \<Rightarrow> ('s, 'a) prog" where
  "try_finally m fin = (\<lambda>s. case m s of
      (Blocks, s') \<Rightarrow> (Blocks, s')
    | (r, s') \<Rightarrow> (case fin s' of
          (Returns u, s'') \<Rightarrow> (r, s'')
        | (Raises e, s'') \<Rightarrow> (Raises e, s'')
        | (Blocks, s'') \<Rightarrow> (Blocks, s'')))"

section \<open>The state of one cache\<close>

text \<open>
  The events record, in order, every acquisition and release of \<^verbatim>\<open>_wlock\<close> and every
  access to \<^verbatim>\<open>_mapping\<close> and \<^verbatim>\<open>_queue\<close>.
\<close>

datatype event = LockAcquire | LockRelease | MappingAccess | QueueAccess

record ('k, 'v) lru_cache =
  capacity :: int
  mapping :: "'k \<rightharpoonup> 'v"
  queue :: "'k list"
  wlock :: bool
  events :: "event list"

definition log_event :: "event \<Rightarrow> ('k, 'v) lru_cache \<Rightarrow> ('k, 'v) lru_cache" where
  "log_event e c = c\<lparr>events := events c @ [e]\<rparr>"

subsection \<open>The dict \<^verbatim>\<open>self._mapping\<close>\<close>

text \<open>\<^verbatim>\<open>self._mapping[key]\<close>\<close>

definition mapping_getitem :: "'k \<Rightarrow> (('k, 'v) lru_cache, 'v) prog" where
  "mapping_getitem key = (\<lambda>c. case mapping c key of
      None \<Rightarrow> (Raises KeyError, log_event MappingAccess c)
    | Some v \<Rightarrow> (Returns v, log_event MappingAccess c))"

text \<open>\<^verbatim>\<open>key in self._mapping\<close>\<close>

definition mapping_contains :: "'k \<Rightarrow> (('k, 'v) lru_cache, bool) prog" where
  "mapping_contains key = (\<lambda>c. (Returns (key \<in> dom (mapping c)), log_event MappingAccess c))"

text \<open>\<^verbatim>\<open>len(self._mapping)\<close>\<close>

definition mapping_len :: "(('k, 'v) lru_cache, nat) prog" where
  "mapping_len = (\<lambda>c. (Returns (card (dom (mapping c))), log_event MappingAccess c))"

text \<open>\<^verbatim>\<open>del self._mapping[key]\<close>\<close>

definition mapping_delitem :: "'k \<Rightarrow> (('k, 'v) lru_cache, unit) prog" where
  "mapping_delitem key = (\<lambda>c. case mapping c key of
      None \<Rightarrow> (Raises KeyError, log_event MappingAccess c)
    | Some v \<Rightarrow> (Returns (), log_event MappingAccess (c\<lparr>mapping := (mapping c)(key := None)\<rparr>)))"

text \<open>\<^verbatim>\<open>self._mapping[key] = value\<close>\<close>

definition mapping_setitem :: "'k \<Rightarrow> 'v \<Rightarrow> (('k, 'v) lru_cache, unit) prog" where
  "mapping_setitem key v =
     (\<lambda>c. (Returns (), log_event MappingAccess (c\<lparr>mapping := (mapping c)(key \<mapsto> v)\<rparr>)))"

text \<open>\<^verbatim>\<open>self._mapping.clear()\<close>\<close>

definition mapping_clear :: "(('k, 'v) lru_cache, unit) prog" where
  "mapping_clear = (\<lambda>c. (Returns (), log_event MappingAccess (c\<lparr>mapping := Map.empty\<rparr>)))"

subsection \<open>The deque \<^verbatim>\<open>self._queue\<close>\<close>

text \<open>
  The head of the list is the left end of the deque. \<^verbatim>\<open>_postinit\<close> binds \<^verbatim>\<open>_popleft\<close>,
  \<^verbatim>\<open>_remove\<close> and \<^verbatim>\<open>_append\<close> to the deque that \<^verbatim>\<open>self._queue\<close> names, and
  \<^verbatim>\<open>_queue\<close> is assigned only right before \<^verbatim>\<open>_postinit\<close> runs, so they act on \<^verbatim>\<open>_queue\<close>.
\<close>

text \<open>\<^verbatim>\<open>self._queue[-1]\<close>\<close>

definition queue_last :: "(('k, 'v) lru_cache, 'k) prog" where
  "queue_last = (\<lambda>c. case rev (queue c) of
      [] \<Rightarrow> (Raises IndexError, log_event QueueAccess c)
    | k # ks \<Rightarrow> (Returns k, log_event QueueAccess c))"

text \<open>\<^verbatim>\<open>self._remove(key)\<close>: removes the first occurrence, \<^verbatim>\<open>ValueError\<close> when there is none.\<close>

definition queue_remove :: "'k \<Rightarrow> (('k, 'v) lru_cache, unit) prog" where
  "queue_remove key = (\<lambda>c.
     if key \<in> set (queue c)
     then (Returns (), log_event QueueAccess (c\<lparr>queue := remove1 key (queue c)\<rparr>))
     else (Raises ValueError, log_event QueueAccess c))"

text \<open>\<^verbatim>\<open>self._append(key)\<close>\<close>

definition queue_append :: "'k \<Rightarrow> (('k, 'v) lru_cache, unit) prog" where
  "queue_append key = (\<lambda>c. (Returns (), log_event QueueAccess (c\<lparr>queue := queue c @ [key]\<rparr>)))"

text \<open>\<^verbatim>\<open>self._popleft()\<close>\<close>

definition queue_popleft :: "(('k, 'v) lru_cache, 'k) prog" where
  "queue_popleft = (\<lambda>c. case queue c of
      [] \<Rightarrow> (Raises IndexError, log_event QueueAccess c)
    | k # ks \<Rightarrow> (Returns k, log_event QueueAccess (c\<lparr>queue := ks\<rparr>)))"

text \<open>\<^verbatim>\<open>self._queue.clear()\<close>\<close>

definition queue_clear :: "(('k, 'v) lru_cache, unit) prog" where
  "queue_clear = (\<lambda>c. (Returns (), log_event QueueAccess (c\<lparr>queue := []\<rparr>)))"

text \<open>\<^verbatim>\<open>list(self._queue)\<close> and \<^verbatim>\<open>tuple(self._queue)\<close>\<close>

definition queue_snapshot :: "(('k, 'v) lru_cache, 'k list) prog" where
  "queue_snapshot = (\<lambda>c. (Returns (queue c), log_event QueueAccess c))"

subsection \<open>The capacity and the lock\<close>

text \<open>\<^verbatim>\<open>self.capacity\<close>\<close>

definition get_capacity :: "(('k, 'v) lru_cache, int) prog" where
  "get_capacity = (\<lambda>c. (Returns (capacity c), c))"

text \<open>\<^verbatim>\<open>self._wlock.acquire()\<close>: waits for ever when the lock is held.\<close>

definition wlock_acquire :: "(('k, 'v) lru_cache, unit) prog" where
  "wlock_acquire = (\<lambda>c.
     if wlock c then (Blocks, c)
     else (Returns (), log_event LockAcquire (c\<lparr>wlock := True\<rparr>)))"

text \<open>\<^verbatim>\<open>self._wlock.release()\<close>: \<^verbatim>\<open>RuntimeError\<close> on a lock that is not held.\<close>

definition wlock_release :: "(('k, 'v) lru_cache, unit) prog" where
  "wlock_release = (\<lambda>c.
     if wlock c then (Returns (), log_event LockRelease (c\<lparr>wlock := False\<rparr>))
     else (Raises RuntimeError, c))"

section \<open>The methods of LRUCache\<close>

text \<open>\<^verbatim>\<open>__contains__\<close> and \<^verbatim>\<open>__len__\<close>\<close>

definition contains :: "'k \<Rightarrow> (('k, 'v) lru_cache, bool) prog" where
  "contains key = mapping_contains key"

definition len :: "(('k, 'v) lru_cache, nat) prog" where
  "len = mapping_len"

text \<open>\<^verbatim>\<open>__getitem__\<close>\<close>

definition getitem :: "'k \<Rightarrow> (('k, 'v) lru_cache, 'v) prog" where
  "getitem key =
     bindM wlock_acquire (\<lambda>_.
     try_finally
       (bindM (mapping_getitem key) (\<lambda>rv.
        bindM queue_last (\<lambda>newest.
        bindM (if newest \<noteq> key
               then bindM (try_except (queue_remove key) ValueError (return ()))
                          (\<lambda>_. queue_append key)
               else return ()) (\<lambda>_.
        return rv))))
       wlock_release)"

text \<open>\<^verbatim>\<open>__setitem__\<close>\<close>

definition setitem :: "'k \<Rightarrow> 'v \<Rightarrow> (('k, 'v) lru_cache, unit) prog" where
  "setitem key v =
     bindM wlock_acquire (\<lambda>_.
     try_finally
       (bindM (mapping_contains key) (\<lambda>present.
        bindM (if present then queue_remove key
               else bindM mapping_len (\<lambda>n.
                    bindM get_capacity (\<lambda>cap.
                    if int n = cap
                    then bindM queue_popleft (\<lambda>oldest. mapping_delitem oldest)
                    else return ()))) (\<lambda>_.
        bindM (queue_append key) (\<lambda>_.
        mapping_setitem key v))))
       wlock_release)"

text \<open>\<^verbatim>\<open>__delitem__\<close>\<close>

definition delitem :: "'k \<Rightarrow> (('k, 'v) lru_cache, unit) prog" where
  "delitem key =
     bindM wlock_acquire (\<lambda>_.
     try_finally
       (bindM (mapping_delitem key) (\<lambda>_.
        try_except (queue_remove key) ValueError (return ())))
       wlock_release)"

text \<open>\<^verbatim>\<open>get\<close>, \<^verbatim>\<open>setdefault\<close> and \<^verbatim>\<open>clear\<close>. The default \<^verbatim>\<open>None\<close> of the parameter
  \<^verbatim>\<open>default\<close> is a value like any other, passed by the caller here.\<close>

definition get :: "'k \<Rightarrow> 'v \<Rightarrow> (('k, 'v) lru_cache, 'v) prog" where
  "get key dflt = try_except (getitem key) KeyError (return dflt)"

definition setdefault :: "'k \<Rightarrow> 'v \<Rightarrow> (('k, 'v) lru_cache, 'v) prog" where
  "setdefault key dflt =
     try_except (getitem key) KeyError
       (bindM (setitem key dflt) (\<lambda>_. return dflt))"

definition clear :: "(('k, 'v) lru_cache, unit) prog" where
  "clear =
     bindM wlock_acquire (\<lambda>_.
     try_finally (bindM mapping_clear (\<lambda>_. queue_clear)) wlock_release)"

text \<open>\<^verbatim>\<open>items\<close>: the list comprehension looks every key of the queue up in the dict.\<close>

fun items_loop :: "'k list \<Rightarrow> (('k, 'v) lru_cache, ('k \<times> 'v) list) prog" where
  "items_loop [] = return []"
| "items_loop (key # keys) =
     bindM (mapping_getitem key) (\<lambda>v.
     bindM (items_loop keys) (\<lambda>rest.
     return ((key, v) # rest)))"

definition items :: "(('k, 'v) lru_cache, ('k \<times> 'v) list) prog" where
  "items = bindM queue_snapshot (\<lambda>keys. bindM (items_loop keys) (\<lambda>result. return (rev result)))"

text \<open>\<^verbatim>\<open>values\<close>, \<^verbatim>\<open>__iter__\<close>, \<^verbatim>\<open>keys\<close> and \<^verbatim>\<open>__reversed__\<close>. \<^verbatim>\<open>keys\<close> is
  \<^verbatim>\<open>list(self)\<close>: \<^verbatim>\<open>list\<close> calls \<^verbatim>\<open>__iter__\<close>, which takes the tuple of the queue, then
  \<^verbatim>\<open>__len__\<close> for a size hint, and then reads the iterator.\<close>

definition values_list :: "(('k, 'v) lru_cache, 'v list) prog" where
  "values_list = bindM items (\<lambda>xs. return (map snd xs))"

definition iter :: "(('k, 'v) lru_cache, 'k list) prog" where
  "iter = bindM queue_snapshot (\<lambda>q. return (rev q))"

definition keys :: "(('k, 'v) lru_cache, 'k list) prog" where
  "keys = bindM iter (\<lambda>ks. bindM len (\<lambda>_. return ks))"

definition reversed :: "(('k, 'v) lru_cache, 'k list) prog" where
  "reversed = bindM queue_snapshot (\<lambda>q. return q)"

section \<open>The invariants\<close>

definition invariant :: "('k, 'v) lru_cache \<Rightarrow> bool" where
  "invariant c \<longleftrightarrow>
     dom (mapping c) = set (queue c) \<and> distinct (queue c) \<and>
     int (card (dom (mapping c))) \<le> capacity c"

section \<open>The events of a call\<close>

text \<open>The events that a call adds to the record.\<close>

definition trace_of :: "(('k, 'v) lru_cache, 'a) prog \<Rightarrow> ('k, 'v) lru_cache \<Rightarrow> event list" where
  "trace_of m c = drop (length (events c)) (events (snd (m c)))"

text \<open>The lock is taken first, released last, and neither taken nor released in between.\<close>

definition held_throughout :: "event list \<Rightarrow> bool" where
  "held_throughout es = (case es of
      [] \<Rightarrow> False
    | e # es' \<Rightarrow> e = LockAcquire \<and> es' \<noteq> [] \<and> last es' = LockRelease \<and>
        LockAcquire \<notin> set (butlast es') \<and> LockRelease \<notin> set (butlast es'))"

section \<open>The heap of objects\<close>

text \<open>
  Objects live in a heap. An \<^verbatim>\<open>LRUCache\<close> instance holds its capacity and references to
  its dict, its deque and its lock; \<^verbatim>\<open>_wlock\<close> is missing until \<^verbatim>\<open>_postinit\<close> has run.
  An object just made by \<^verbatim>\<open>__new__\<close> has an address and no attributes.
\<close>

type_synonym addr = nat

record cache_object =
  capacity_attr :: int
  mapping_attr :: addr
  queue_attr :: addr
  wlock_attr :: "addr option"

record ('k, 'v) heap =
  instances :: "addr \<rightharpoonup> cache_object"
  dicts :: "addr \<rightharpoonup> ('k \<rightharpoonup> 'v)"
  deques :: "addr \<rightharpoonup> 'k list"
  locks :: "addr \<rightharpoonup> bool"
  next_addr :: addr
  event_log :: "event list"

text \<open>\<^verbatim>\<open>object.__new__(cls)\<close>, \<^verbatim>\<open>{}\<close>, \<^verbatim>\<open>deque()\<close> and \<^verbatim>\<open>Lock()\<close>\<close>

definition new_object :: "(('k, 'v) heap, addr) prog" where
  "new_object = (\<lambda>h. (Returns (next_addr h), h\<lparr>next_addr := Suc (next_addr h)\<rparr>))"

definition new_dict :: "(('k, 'v) heap, addr) prog" where
  "new_dict = (\<lambda>h. (Returns (next_addr h),
     h\<lparr>dicts := (dicts h)(next_addr h \<mapsto> Map.empty), next_addr := Suc (next_addr h)\<rparr>))"

definition new_deque :: "(('k, 'v) heap, addr) prog" where
  "new_deque = (\<lambda>h. (Returns (next_addr h),
     h\<lparr>deques := (deques h)(next_addr h \<mapsto> []), next_addr := Suc (next_addr h)\<rparr>))"

definition new_lock :: "(('k, 'v) heap, addr) prog" where
  "new_lock = (\<lambda>h. (Returns (next_addr h),
     h\<lparr>locks := (locks h)(next_addr h \<mapsto> False), next_addr := Suc (next_addr h)\<rparr>))"

text \<open>
  Setting \<^verbatim>\<open>capacity\<close>, \<^verbatim>\<open>_mapping\<close> and \<^verbatim>\<open>_queue\<close> of an instance, as the three
  assignments of \<^verbatim>\<open>__init__\<close> and as \<^verbatim>\<open>self.__dict__.update(d)\<close> do; a \<^verbatim>\<open>_wlock\<close> that
  the instance has stays.
\<close>

definition set_attrs :: "addr \<Rightarrow> int \<Rightarrow> addr \<Rightarrow> addr \<Rightarrow> (('k, 'v) heap, unit) prog" where
  "set_attrs self cap m q = (\<lambda>h. (Returns (),
     h\<lparr>instances := (instances h)(self \<mapsto>
         \<lparr>capacity_attr = cap, mapping_attr = m, queue_attr = q,
          wlock_attr = (case instances h self of None \<Rightarrow> None | Some i \<Rightarrow> wlock_attr i)\<rparr>)\<rparr>))"

text \<open>\<^verbatim>\<open>_postinit\<close>: the queue methods are bound and \<^verbatim>\<open>_wlock\<close> is a new lock.\<close>

definition postinit :: "addr \<Rightarrow> (('k, 'v) heap, unit) prog" where
  "postinit self = (\<lambda>h. case instances h self of
      None \<Rightarrow> (Raises AttributeError, h)
    | Some i \<Rightarrow> bindM new_lock (\<lambda>l h'.
        (Returns (), h'\<lparr>instances := (instances h')(self \<mapsto> i\<lparr>wlock_attr := Some l\<rparr>)\<rparr>)) h)"

text \<open>\<^verbatim>\<open>__init__\<close>, and the call \<^verbatim>\<open>LRUCache(capacity)\<close> that makes the object first\<close>

definition init :: "addr \<Rightarrow> int \<Rightarrow> (('k, 'v) heap, unit) prog" where
  "init self cap =
     bindM new_dict (\<lambda>m.
     bindM new_deque (\<lambda>q.
     bindM (set_attrs self cap m q) (\<lambda>_.
     postinit self)))"

definition LRUCache :: "int \<Rightarrow> (('k, 'v) heap, addr) prog" where
  "LRUCache cap = bindM new_object (\<lambda>self. bindM (init self cap) (\<lambda>_. return self))"

text \<open>\<^verbatim>\<open>__getstate__\<close> and \<^verbatim>\<open>__setstate__\<close>: the state names the dict and the deque by
  reference and has no lock.\<close>

record state_dict =
  state_capacity :: int
  state_mapping :: addr
  state_queue :: addr

definition getstate :: "addr \<Rightarrow> (('k, 'v) heap, state_dict) prog" where
  "getstate self = (\<lambda>h. case instances h self of
      None \<Rightarrow> (Raises AttributeError, h)
    | Some i \<Rightarrow> (Returns \<lparr>state_capacity = capacity_attr i, state_mapping = mapping_attr i,
                          state_queue = queue_attr i\<rparr>, h))"

definition setstate :: "addr \<Rightarrow> state_dict \<Rightarrow> (('k, 'v) heap, unit) prog" where
  "setstate self d =
     bindM (set_attrs self (state_capacity d) (state_mapping d) (state_queue d)) (\<lambda>_.
     postinit self)"

text \<open>
  Making an instance from a state, as unpickling and \<^verbatim>\<open>copy.deepcopy\<close> do with the
  methods of the class: \<^verbatim>\<open>cls.__new__(cls, capacity)\<close>, which makes an object with no
  attributes (the capacity of \<^verbatim>\<open>__getnewargs__\<close> is not used by \<^verbatim>\<open>object.__new__\<close>), then
  \<^verbatim>\<open>__setstate__\<close> with the state.
\<close>

definition reconstruct :: "state_dict \<Rightarrow> (('k, 'v) heap, addr) prog" where
  "reconstruct d = bindM new_object (\<lambda>rv. bindM (setstate rv d) (\<lambda>_. return rv))"

text \<open>
  A method call on the instance at an address works on the dict, the deque and the lock that
  the instance refers to, and fails with \<^verbatim>\<open>AttributeError\<close> when one of them is missing.
\<close>

definition load :: "('k, 'v) heap \<Rightarrow> addr \<Rightarrow> ('k, 'v) lru_cache option" where
  "load h self = (case instances h self of None \<Rightarrow> None | Some i \<Rightarrow>
     (case wlock_attr i of None \<Rightarrow> None | Some l \<Rightarrow>
     (case dicts h (mapping_attr i) of None \<Rightarrow> None | Some m \<Rightarrow>
     (case deques h (queue_attr i) of None \<Rightarrow> None | Some q \<Rightarrow>
     (case locks h l of None \<Rightarrow> None | Some b \<Rightarrow>
        Some \<lparr>capacity = capacity_attr i, mapping = m, queue = q, wlock = b,
              events = event_log h\<rparr>)))))"

definition store :: "addr \<Rightarrow> ('k, 'v) lru_cache \<Rightarrow> ('k, 'v) heap \<Rightarrow> ('k, 'v) heap" where
  "store self c h = (case instances h self of None \<Rightarrow> h | Some i \<Rightarrow>
     h\<lparr>dicts := (dicts h)(mapping_attr i \<mapsto> mapping c),
       deques := (deques h)(queue_attr i \<mapsto> queue c),
       locks := (case wlock_attr i of None \<Rightarrow> locks h | Some l \<Rightarrow> (locks h)(l \<mapsto> wlock c)),
       event_log := events c\<rparr>)"

definition invoke :: "addr \<Rightarrow> (('k, 'v) lru_cache, 'a) prog \<Rightarrow> (('k, 'v) heap, 'a) prog" where
  "invoke self m = (\<lambda>h. case load h self of
      None \<Rightarrow> (Raises AttributeError, h)
    | Some c \<Rightarrow> (case m c of (r, c') \<Rightarrow> (r, store self c' h)))"

text \<open>\<^verbatim>\<open>copy\<close>: \<^verbatim>\<open>rv._mapping.update(self._mapping)\<close> and \<^verbatim>\<open>rv._queue.extend(self._queue)\<close>
  read the containers of \<^verbatim>\<open>self\<close> and write those of \<^verbatim>\<open>rv\<close>.\<close>

definition attr_capacity :: "addr \<Rightarrow> (('k, 'v) heap, int) prog" where
  "attr_capacity self = (\<lambda>h. case instances h self of
      None \<Rightarrow> (Raises AttributeError, h)
    | Some i \<Rightarrow> (Returns (capacity_attr i), h))"

definition update_mapping :: "addr \<Rightarrow> addr \<Rightarrow> (('k, 'v) heap, unit) prog" where
  "update_mapping rv self = (\<lambda>h.
     case (instances h rv, instances h self) of
       (Some i, Some j) \<Rightarrow>
         (case (dicts h (mapping_attr i), dicts h (mapping_attr j)) of
            (Some m, Some m') \<Rightarrow> (Returns (),
               h\<lparr>dicts := (dicts h)(mapping_attr i \<mapsto> m ++ m'),
                 event_log := event_log h @ [MappingAccess, MappingAccess]\<rparr>)
          | _ \<Rightarrow> (Raises AttributeError, h))
     | _ \<Rightarrow> (Raises AttributeError, h))"

definition extend_queue :: "addr \<Rightarrow> addr \<Rightarrow> (('k, 'v) heap, unit) prog" where
  "extend_queue rv self = (\<lambda>h.
     case (instances h rv, instances h self) of
       (Some i, Some j) \<Rightarrow>
         (case (deques h (queue_attr i), deques h (queue_attr j)) of
            (Some q, Some q') \<Rightarrow> (Returns (),
               h\<lparr>deques := (deques h)(queue_attr i \<mapsto> q @ q'),
                 event_log := event_log h @ [QueueAccess, QueueAccess]\<rparr>)
          | _ \<Rightarrow> (Raises AttributeError, h))
     | _ \<Rightarrow> (Raises AttributeError, h))"

definition copy :: "addr \<Rightarrow> (('k, 'v) heap, addr) prog" where
  "copy self =
     bindM (attr_capacity self) (\<lambda>cap.
     bindM (LRUCache cap) (\<lambda>rv.
     bindM (update_mapping rv self) (\<lambda>_.
     bindM (extend_queue rv self) (\<lambda>_.
     return rv))))"

section \<open>Well-formed instances\<close>

text \<open>
  An instance is well formed in a heap when it has all its attributes, they refer to objects
  that exist, and every address involved has been allocated. Two instances are separate
  when they share neither dict nor deque nor lock.
\<close>

definition instance_ok :: "('k, 'v) heap \<Rightarrow> addr \<Rightarrow> bool" where
  "instance_ok h a = (case instances h a of None \<Rightarrow> False | Some i \<Rightarrow>
     (case wlock_attr i of None \<Rightarrow> False | Some l \<Rightarrow>
        a < next_addr h \<and> mapping_attr i < next_addr h \<and> queue_attr i < next_addr h \<and>
        l < next_addr h \<and> dicts h (mapping_attr i) \<noteq> None \<and>
        deques h (queue_attr i) \<noteq> None \<and> locks h l \<noteq> None))"

definition separate :: "('k, 'v) heap \<Rightarrow> addr \<Rightarrow> addr \<Rightarrow> bool" where
  "separate h a b = (case instances h a of None \<Rightarrow> False | Some i \<Rightarrow>
     (case instances h b of None \<Rightarrow> False | Some j \<Rightarrow>
        a \<noteq> b \<and> mapping_attr i \<noteq> mapping_attr j \<and> queue_attr i \<noteq> queue_attr j \<and>
        wlock_attr i \<noteq> wlock_attr j))"

text \<open>What a caller can observe of an instance: capacity, store, queue and lock.\<close>

definition contents ::
  "('k, 'v) heap \<Rightarrow> addr \<Rightarrow> (int \<times> ('k \<rightharpoonup> 'v) \<times> 'k list \<times> bool) option" where
  "contents h a = map_option (\<lambda>c. (capacity c, mapping c, queue c, wlock c)) (load h a)"

text \<open>The capacity, the values in queue order, the queue and the lock of an instance.\<close>

definition observe :: "('k, 'v) heap \<Rightarrow> addr \<Rightarrow> (int \<times> 'v option list \<times> 'k list \<times> bool) option" where
  "observe h a = map_option (\<lambda>(cap, m, q, b). (cap, map m q, q, b)) (contents h a)"

text \<open>An instance that is well formed, satisfies the invariants and whose lock is free.\<close>

definition cache_ok :: "('k, 'v) heap \<Rightarrow> addr \<Rightarrow> bool" where
  "cache_ok h a = (instance_ok h a \<and>
     (case load h a of None \<Rightarrow> False | Some c \<Rightarrow> invariant c \<and> \<not> wlock c))"

section \<open>Sequences of calls\<close>

text \<open>The operations of the cache, and a run of a sequence of calls, each on the instance at
  its address; the value or exception of every call is dropped.\<close>

datatype ('k, 'v) op =
    Get 'k | GetDefault 'k 'v | SetDefault 'k 'v | Set 'k 'v | Delete 'k | Clear | Copy
  | Items | Values | Keys | Iter | Reversed | Contains 'k | Len

fun run_op :: "addr \<Rightarrow> ('k, 'v) op \<Rightarrow> ('k, 'v) heap \<Rightarrow> ('k, 'v) heap" where
  "run_op a (Get key) h = snd (invoke a (getitem key) h)"
| "run_op a (GetDefault key dflt) h = snd (invoke a (get key dflt) h)"
| "run_op a (SetDefault key dflt) h = snd (invoke a (setdefault key dflt) h)"
| "run_op a (Set key v) h = snd (invoke a (setitem key v) h)"
| "run_op a (Delete key) h = snd (invoke a (delitem key) h)"
| "run_op a Clear h = snd (invoke a clear h)"
| "run_op a Copy h = snd (copy a h)"
| "run_op a Items h = snd (invoke a items h)"
| "run_op a Values h = snd (invoke a values_list h)"
| "run_op a Keys h = snd (invoke a keys h)"
| "run_op a Iter h = snd (invoke a iter h)"
| "run_op a Reversed h = snd (invoke a reversed h)"
| "run_op a (Contains key) h = snd (invoke a (contains key) h)"
| "run_op a Len h = snd (invoke a len h)"

fun run_ops :: "(addr \<times> ('k, 'v) op) list \<Rightarrow> ('k, 'v) heap \<Rightarrow> ('k, 'v) heap" where
  "run_ops [] h = h"
| "run_ops ((a, x) # xs) h = run_ops xs (run_op a x h)"

section \<open>Calls in steps\<close>

text \<open>
  A call in progress: it is over, with its outcome, or it has a next step, which depends on
  the state of the cache, changes it, and leaves the rest of the call. A step that cannot
  be taken in a state (the acquisition of a lock that is held) has no successor there.
\<close>

datatype ('s, 'a) task = Done "'a outcome" | Atom "'s \<Rightarrow> (('s, 'a) task \<times> 's) option"

text \<open>One operation on the dict, the deque, the lock or the capacity is one step; an
  operation that waits has no step.\<close>

definition atom :: "('s, 'a) prog \<Rightarrow> ('s, 'a) task" where
  "atom p = Atom (\<lambda>s. case p s of (Blocks, s') \<Rightarrow> None | (r, s') \<Rightarrow> Some (Done r, s'))"

text \<open>Sequencing, \<^verbatim>\<open>try\<close> with \<^verbatim>\<open>except\<close> and \<^verbatim>\<open>try\<close> with \<^verbatim>\<open>finally\<close> for calls in steps.\<close>

primrec bindT :: "('s, 'a) task \<Rightarrow> ('a \<Rightarrow> ('s, 'b) task) \<Rightarrow> ('s, 'b) task" where
  "bindT (Done r) k =
     (case r of Returns x \<Rightarrow> k x | Raises e \<Rightarrow> Done (Raises e) | Blocks \<Rightarrow> Done Blocks)"
| "bindT (Atom f) k = Atom (\<lambda>s. map_option (map_prod (\<lambda>t. bindT t k) id) (f s))"

primrec try_exceptT :: "('s, 'a) task \<Rightarrow> exn \<Rightarrow> ('s, 'a) task \<Rightarrow> ('s, 'a) task" where
  "try_exceptT (Done r) e handler =
     (case r of Raises e' \<Rightarrow> if e' = e then handler else Done (Raises e')
      | Returns x \<Rightarrow> Done (Returns x) | Blocks \<Rightarrow> Done Blocks)"
| "try_exceptT (Atom f) e handler =
     Atom (\<lambda>s. map_option (map_prod (\<lambda>t. try_exceptT t e handler) id) (f s))"

text \<open>The finaliser, run after a body whose outcome is \<open>r\<close>.\<close>

primrec finaliser :: "('s, unit) task \<Rightarrow> 'a outcome \<Rightarrow> ('s, 'a) task" where
  "finaliser (Done u) r =
     (case u of Returns _ \<Rightarrow> Done r | Raises e \<Rightarrow> Done (Raises e) | Blocks \<Rightarrow> Done Blocks)"
| "finaliser (Atom f) r = Atom (\<lambda>s. map_option (map_prod (\<lambda>t. finaliser t r) id) (f s))"

primrec try_finallyT :: "('s, 'a) task \<Rightarrow> ('s, unit) task \<Rightarrow> ('s, 'a) task" where
  "try_finallyT (Done r) fin = (case r of Blocks \<Rightarrow> Done Blocks | _ \<Rightarrow> finaliser fin r)"
| "try_finallyT (Atom f) fin =
     Atom (\<lambda>s. map_option (map_prod (\<lambda>t. try_finallyT t fin) id) (f s))"

text \<open>A call run alone, from its first step to its last.\<close>

primrec run :: "('s, 'a) task \<Rightarrow> ('s, 'a) prog" where
  "run (Done r) = (\<lambda>s. (r, s))"
| "run (Atom f) = (\<lambda>s. case map_option (map_prod run id) (f s) of
      None \<Rightarrow> (Blocks, s) | Some (g, s') \<Rightarrow> g s')"

text \<open>
  The four methods that take the lock, in steps: the bodies are those of the methods, and
  every operation on the dict, the deque, the lock and the capacity is one step. Another
  thread may take its steps between any two of them.
\<close>

definition getitem_steps :: "'k \<Rightarrow> (('k, 'v) lru_cache, 'v) task" where
  "getitem_steps key =
     bindT (atom wlock_acquire) (\<lambda>_.
     try_finallyT
       (bindT (atom (mapping_getitem key)) (\<lambda>rv.
        bindT (atom queue_last) (\<lambda>newest.
        bindT (if newest \<noteq> key
               then bindT (try_exceptT (atom (queue_remove key)) ValueError (Done (Returns ())))
                          (\<lambda>_. atom (queue_append key))
               else Done (Returns ())) (\<lambda>_.
        Done (Returns rv)))))
       (atom wlock_release))"

definition setitem_steps :: "'k \<Rightarrow> 'v \<Rightarrow> (('k, 'v) lru_cache, unit) task" where
  "setitem_steps key v =
     bindT (atom wlock_acquire) (\<lambda>_.
     try_finallyT
       (bindT (atom (mapping_contains key)) (\<lambda>present.
        bindT (if present then atom (queue_remove key)
               else bindT (atom mapping_len) (\<lambda>n.
                    bindT (atom get_capacity) (\<lambda>cap.
                    if int n = cap
                    then bindT (atom queue_popleft) (\<lambda>oldest. atom (mapping_delitem oldest))
                    else Done (Returns ())))) (\<lambda>_.
        bindT (atom (queue_append key)) (\<lambda>_.
        atom (mapping_setitem key v)))))
       (atom wlock_release))"

definition delitem_steps :: "'k \<Rightarrow> (('k, 'v) lru_cache, unit) task" where
  "delitem_steps key =
     bindT (atom wlock_acquire) (\<lambda>_.
     try_finallyT
       (bindT (atom (mapping_delitem key)) (\<lambda>_.
        try_exceptT (atom (queue_remove key)) ValueError (Done (Returns ()))))
       (atom wlock_release))"

definition clear_steps :: "(('k, 'v) lru_cache, unit) task" where
  "clear_steps =
     bindT (atom wlock_acquire) (\<lambda>_.
     try_finallyT (bindT (atom mapping_clear) (\<lambda>_. atom queue_clear)) (atom wlock_release))"

section \<open>Concurrent calls\<close>

text \<open>
  Threads share one cache, and each thread makes one call. One step of the whole is one step
  of one thread; a thread whose call is over, or whose next step cannot be taken in the
  current state, has no step. A run is the list of the threads that take the steps, in
  order; a list that names a thread that has no step is no run. Every order of steps that
  the lock allows is a run, so that calls made one after another, by one thread or by
  several, are among the runs: they are the runs in which the steps of the one call come
  before the steps of the other.
\<close>

fun thread_step :: "nat \<Rightarrow> 's \<times> ('s, 'a) task list \<Rightarrow> ('s \<times> ('s, 'a) task list) option" where
  "thread_step i (s, ts) =
     (if i < length ts
      then (case ts ! i of
              Done r \<Rightarrow> None
            | Atom f \<Rightarrow> (case f s of None \<Rightarrow> None | Some (t, s') \<Rightarrow> Some (s', ts[i := t])))
      else None)"

fun schedule :: "nat list \<Rightarrow> 's \<times> ('s, 'a) task list \<Rightarrow> ('s \<times> ('s, 'a) task list) option" where
  "schedule [] cf = Some cf"
| "schedule (i # js) cf =
     (case thread_step i cf of None \<Rightarrow> None | Some cf' \<Rightarrow> schedule js cf')"

text \<open>The calls that take the lock, with their values: \<^verbatim>\<open>__getitem__\<close> returns the stored
  value, the others return \<^verbatim>\<open>None\<close>.\<close>

datatype ('k, 'v) call = GetItem 'k | SetItem 'k 'v | DelItem 'k | ClearAll

fun call_steps :: "('k, 'v) call \<Rightarrow> (('k, 'v) lru_cache, 'v option) task" where
  "call_steps (GetItem key) = bindT (getitem_steps key) (\<lambda>v. Done (Returns (Some v)))"
| "call_steps (SetItem key v) = bindT (setitem_steps key v) (\<lambda>_. Done (Returns None))"
| "call_steps (DelItem key) = bindT (delitem_steps key) (\<lambda>_. Done (Returns None))"
| "call_steps ClearAll = bindT clear_steps (\<lambda>_. Done (Returns None))"

fun call_prog :: "('k, 'v) call \<Rightarrow> (('k, 'v) lru_cache, 'v option) prog" where
  "call_prog (GetItem key) = bindM (getitem key) (\<lambda>v. return (Some v))"
| "call_prog (SetItem key v) = bindM (setitem key v) (\<lambda>_. return None)"
| "call_prog (DelItem key) = bindM (delitem key) (\<lambda>_. return None)"
| "call_prog ClearAll = bindM clear (\<lambda>_. return None)"

text \<open>The calls made one at a time, each from its first step to its last.\<close>

fun serial :: "('k, 'v) call list \<Rightarrow> ('k, 'v) lru_cache \<Rightarrow>
    'v option outcome list \<times> ('k, 'v) lru_cache" where
  "serial [] s = ([], s)"
| "serial (c # cs) s = (case call_prog c s of (r, s') \<Rightarrow>
     (case serial cs s' of (rs, s'') \<Rightarrow> (r # rs, s'')))"

text \<open>
  A part of a call that can always take its next step while the lock is held and leaves the
  lock held; a call that is in its critical section: it can always take its next step
  while the lock is held, and that step either leaves the lock held, inside the section,
  or releases the lock and ends the call; and a call that starts by taking the lock, so
  that it cannot start while the lock is held.
\<close>

inductive keeps_lock :: "(('k, 'v) lru_cache, 'a) task \<Rightarrow> bool" where
  "r \<noteq> Blocks \<Longrightarrow> keeps_lock (Done r)"
| "\<forall>s. wlock s \<longrightarrow> (\<exists>t s'. f s = Some (t, s') \<and> wlock s' \<and> keeps_lock t) \<Longrightarrow>
   keeps_lock (Atom f)"

inductive in_section :: "(('k, 'v) lru_cache, 'a) task \<Rightarrow> bool" where
  "\<forall>s. wlock s \<longrightarrow> (\<exists>t s'. f s = Some (t, s') \<and>
      ((\<exists>r. t = Done r) \<and> \<not> wlock s' \<or> in_section t \<and> wlock s')) \<Longrightarrow>
   in_section (Atom f)"

definition takes_lock :: "(('k, 'v) lru_cache, 'a) task \<Rightarrow> bool" where
  "takes_lock t \<longleftrightarrow> (\<exists>f. t = Atom f \<and>
     (\<forall>s. if wlock s then f s = None
          else (\<exists>t' s'. f s = Some (t', s') \<and> wlock s' \<and> in_section t')))"

text \<open>A thread is busy when its call has started and is not over.\<close>

definition busy :: "('k, 'v) call list \<Rightarrow> (('k, 'v) lru_cache, 'v option) task list \<Rightarrow> nat \<Rightarrow> bool" where
  "busy cs ts i \<longleftrightarrow> ts ! i \<noteq> call_steps (cs ! i) \<and> (\<forall>r. ts ! i \<noteq> Done r)"

text \<open>
  What holds after every run \<open>js\<close> of concurrent calls: the calls that have started, in
  the order in which they took the lock, are all over but possibly the last, whose thread
  took the last step, and the state and the outcomes are those of these calls made one at
  a time in that order.
\<close>

definition serial_inv :: "('k, 'v) call list \<Rightarrow> ('k, 'v) lru_cache \<Rightarrow> nat list \<Rightarrow>
    ('k, 'v) lru_cache \<times> (('k, 'v) lru_cache, 'v option) task list \<Rightarrow> bool" where
  "serial_inv cs s0 js cf = (case cf of (s, ts) \<Rightarrow>
     length ts = length cs \<and> distinct (remdups_adj js) \<and> set js \<subseteq> {..<length cs} \<and>
     (\<forall>i<length cs. i \<notin> set js \<longrightarrow> ts ! i = call_steps (cs ! i)) \<and>
     (\<not> wlock s \<and>
        map ((!) ts) (remdups_adj js) = map Done (fst (serial (map ((!) cs) (remdups_adj js)) s0)) \<and>
        s = snd (serial (map ((!) cs) (remdups_adj js)) s0)
      \<or> (\<exists>p j. remdups_adj js = p @ [j] \<and> wlock s \<and> in_section (ts ! j) \<and>
           map ((!) ts) p = map Done (fst (serial (map ((!) cs) p) s0)) \<and>
           run (ts ! j) s = call_prog (cs ! j) (snd (serial (map ((!) cs) p) s0)))))"

section \<open>Example states\<close>

definition c0 :: "(string, int) lru_cache" where
  "c0 = \<lparr>capacity = 2, mapping = [''a'' \<mapsto> 1, ''b'' \<mapsto> 2], queue = [''a'', ''b''],
         wlock = False, events = []\<rparr>"

definition e0 :: "(string, int) lru_cache" where
  "e0 = \<lparr>capacity = 0, mapping = Map.empty, queue = [], wlock = False, events = []\<rparr>"

definition empty_heap :: "('k, 'v) heap" where
  "empty_heap = \<lparr>instances = Map.empty, dicts = Map.empty, deques = Map.empty,
     locks = Map.empty, next_addr = 0, event_log = []\<rparr>"

text \<open>A cache of capacity two made in the empty heap, and the cache after two insertions.\<close>

definition h2 :: "(string, int) heap" where
  "h2 = snd (LRUCache 2 empty_heap)"

definition h_ab :: "(string, int) heap" where
  "h_ab = run_ops [(0, Set ''a'' 1), (0, Set ''b'' 2)] h2"

text \<open>The cache of capacity two after two insertions, with its lock held.\<close>

definition h_held :: "(string, int) heap" where
  "h_held = h_ab\<lparr>locks := [Suc (Suc (Suc 0)) \<mapsto> True]\<rparr>"

text \<open>The cache \<open>c0\<close> after \<^verbatim>\<open>__getitem__\<close> of \<^verbatim>\<open>a\<close> and then \<^verbatim>\<open>__setitem__\<close> of \<^verbatim>\<open>c\<close>.\<close>

definition c_ac :: "(string, int) lru_cache" where
  "c_ac = \<lparr>capacity = 2, mapping = [''a'' \<mapsto> 1, ''c'' \<mapsto> 3], queue = [''a'', ''c''],
     wlock = False,
     events = [LockAcquire, MappingAccess, QueueAccess, QueueAccess, QueueAccess, LockRelease,
       LockAcquire, MappingAccess, MappingAccess, QueueAccess, MappingAccess, QueueAccess,
       MappingAccess, LockRelease]\<rparr>"

section \<open>What each method computes\<close>

lemmas prims = return_def bindM_def try_except_def try_finally_def log_event_def
  mapping_getitem_def mapping_contains_def mapping_len_def mapping_delitem_def
  mapping_setitem_def mapping_clear_def queue_last_def queue_remove_def queue_append_def
  queue_popleft_def queue_clear_def queue_snapshot_def get_capacity_def wlock_acquire_def
  wlock_release_def

lemma setitem_present:
  assumes "key \<in> set (queue c)" "key \<in> dom (mapping c)" "\<not> wlock c"
  shows "setitem key v c = (Returns (),
     c\<lparr>mapping := (mapping c)(key \<mapsto> v), queue := remove1 key (queue c) @ [key],
       events := events c @ [LockAcquire, MappingAccess, QueueAccess, QueueAccess, MappingAccess, LockRelease]\<rparr>)"
  using assms by (simp add: setitem_def prims)

lemma setitem_evict:
  assumes "key \<notin> dom (mapping c)" "int (card (dom (mapping c))) = capacity c" "queue c = k # ks"
    "k \<in> dom (mapping c)" "\<not> wlock c"
  shows "setitem key v c = (Returns (),
     c\<lparr>mapping := ((mapping c)(k := None))(key \<mapsto> v), queue := ks @ [key],
       events := events c @ [LockAcquire, MappingAccess, MappingAccess, QueueAccess, MappingAccess, QueueAccess, MappingAccess, LockRelease]\<rparr>)"
  using assms by (auto simp add: setitem_def prims)

lemma setitem_room:
  assumes "key \<notin> dom (mapping c)" "int (card (dom (mapping c))) \<noteq> capacity c" "\<not> wlock c"
  shows "setitem key v c = (Returns (),
     c\<lparr>mapping := (mapping c)(key \<mapsto> v), queue := queue c @ [key],
       events := events c @ [LockAcquire, MappingAccess, MappingAccess, QueueAccess, MappingAccess, LockRelease]\<rparr>)"
  using assms by (auto simp add: setitem_def prims)

lemma setitem_empty_full:
  assumes "key \<notin> dom (mapping c)" "int (card (dom (mapping c))) = capacity c" "queue c = []" "\<not> wlock c"
  shows "setitem key v c = (Raises IndexError,
     c\<lparr>events := events c @ [LockAcquire, MappingAccess, MappingAccess, QueueAccess, LockRelease]\<rparr>)"
  using assms by (auto simp add: setitem_def prims)

lemma getitem_absent:
  assumes "mapping c key = None" "\<not> wlock c"
  shows "getitem key c = (Raises KeyError,
     c\<lparr>events := events c @ [LockAcquire, MappingAccess, LockRelease]\<rparr>)"
  using assms by (simp add: getitem_def prims)

lemma getitem_newest:
  assumes "mapping c key = Some v" "queue c = ks @ [key]" "\<not> wlock c"
  shows "getitem key c = (Returns v,
     c\<lparr>events := events c @ [LockAcquire, MappingAccess, QueueAccess, LockRelease]\<rparr>)"
  using assms by (simp add: getitem_def prims)

lemma getitem_older:
  assumes "mapping c key = Some v" "queue c = ks @ [k]" "k \<noteq> key" "key \<in> set ks" "\<not> wlock c"
  shows "getitem key c = (Returns v,
     c\<lparr>queue := remove1 key (queue c) @ [key],
       events := events c @ [LockAcquire, MappingAccess, QueueAccess, QueueAccess, QueueAccess, LockRelease]\<rparr>)"
  using assms by (simp add: getitem_def prims)

lemma delitem_absent:
  assumes "mapping c key = None" "\<not> wlock c"
  shows "delitem key c = (Raises KeyError,
     c\<lparr>events := events c @ [LockAcquire, MappingAccess, LockRelease]\<rparr>)"
  using assms by (simp add: delitem_def prims)

lemma delitem_present:
  assumes "mapping c key = Some v" "key \<in> set (queue c)" "\<not> wlock c"
  shows "delitem key c = (Returns (),
     c\<lparr>mapping := (mapping c)(key := None), queue := remove1 key (queue c),
       events := events c @ [LockAcquire, MappingAccess, QueueAccess, LockRelease]\<rparr>)"
  using assms by (simp add: delitem_def prims)

lemma clear_free:
  assumes "\<not> wlock c"
  shows "clear c = (Returns (),
     c\<lparr>mapping := Map.empty, queue := [],
       events := events c @ [LockAcquire, MappingAccess, QueueAccess, LockRelease]\<rparr>)"
  using assms by (simp add: clear_def prims)

lemma items_loop_present:
  "set ks \<subseteq> dom (mapping c) \<Longrightarrow>
   items_loop ks c = (Returns (map (\<lambda>k. (k, the (mapping c k))) ks),
     c\<lparr>events := events c @ replicate (length ks) MappingAccess\<rparr>)"
proof (induction ks arbitrary: c)
  case Nil
  then show ?case by (simp add: return_def)
next
  case (Cons k ks)
  from Cons.prems obtain v where v: "mapping c k = Some v" by auto
  let ?c1 = "c\<lparr>events := events c @ [MappingAccess]\<rparr>"
  have "set ks \<subseteq> dom (mapping ?c1)" using Cons.prems by simp
  from Cons.IH [OF this] v show ?case
    by (simp add: bindM_def return_def mapping_getitem_def log_event_def replicate_append_same)
qed

lemma items_present:
  "set (queue c) \<subseteq> dom (mapping c) \<Longrightarrow>
   items c = (Returns (rev (map (\<lambda>k. (k, the (mapping c k))) (queue c))),
     c\<lparr>events := events c @ QueueAccess # replicate (length (queue c)) MappingAccess\<rparr>)"
proof -
  assume a: "set (queue c) \<subseteq> dom (mapping c)"
  let ?c1 = "c\<lparr>events := events c @ [QueueAccess]\<rparr>"
  have "set (queue c) \<subseteq> dom (mapping ?c1)" using a by simp
  from items_loop_present [OF this] show ?thesis
    by (simp add: items_def bindM_def return_def queue_snapshot_def log_event_def)
qed

lemma invariant_queue_iff: "invariant c \<Longrightarrow> key \<in> set (queue c) \<longleftrightarrow> key \<in> dom (mapping c)"
  by (simp add: invariant_def)

lemma remove1_newest: "distinct (ks @ [key]) \<Longrightarrow> remove1 key (ks @ [key]) = ks"
  by (simp add: remove1_append remove1_idem)

lemma getitem_present:
  assumes "invariant c" "mapping c key = Some v" "\<not> wlock c"
  shows "\<exists>es. getitem key c = (Returns v,
     c\<lparr>queue := remove1 key (queue c) @ [key], events := events c @ es\<rparr>)"
proof -
  from assms have mem: "key \<in> set (queue c)" and dist: "distinct (queue c)"
    by (auto simp: invariant_def)
  then obtain ks k where q: "queue c = ks @ [k]"
    by (cases "queue c" rule: rev_cases) auto
  show ?thesis
  proof (cases "k = key")
    case True
    with q dist have "remove1 key (queue c) @ [key] = queue c"
      by (simp add: remove1_newest)
    moreover from True q have "queue c = ks @ [key]" by simp
    ultimately show ?thesis
      using getitem_newest [OF assms(2) _ assms(3), of ks]
      by (intro exI [of _ "[LockAcquire, MappingAccess, QueueAccess, LockRelease]"]) simp
  next
    case False
    with q mem have "key \<in> set ks" by auto
    from getitem_older [OF assms(2) q False this assms(3)] show ?thesis by blast
  qed
qed

lemma inv_c0: "invariant c0"
  by (simp add: c0_def invariant_def insert_commute)

lemma invariant_events: "invariant (c\<lparr>events := es\<rparr>) = invariant c"
  by (simp add: invariant_def)

lemma getitem_trace:
  assumes "invariant c" "\<not> wlock c"
  shows "held_throughout (trace_of (getitem key) c) \<and> \<not> wlock (snd (getitem key c))"
proof (cases "mapping c key")
  case None
  from getitem_absent [OF None assms(2)] assms(2) show ?thesis
    by (simp add: trace_of_def held_throughout_def)
next
  case (Some v)
  from assms(1) Some have mem: "key \<in> set (queue c)" by (auto simp: invariant_def)
  then obtain ks k where q: "queue c = ks @ [k]"
    by (cases "queue c" rule: rev_cases) auto
  show ?thesis
  proof (cases "k = key")
    case True
    with q have "queue c = ks @ [key]" by simp
    from getitem_newest [OF Some this assms(2)] assms(2) show ?thesis
      by (simp add: trace_of_def held_throughout_def)
  next
    case False
    with q mem have "key \<in> set ks" by auto
    from getitem_older [OF Some q False this assms(2)] assms(2) show ?thesis
      by (simp add: trace_of_def held_throughout_def)
  qed
qed

lemma setitem_trace:
  assumes "invariant c" "\<not> wlock c"
  shows "held_throughout (trace_of (setitem key v) c) \<and> \<not> wlock (snd (setitem key v c)) \<and>
     events (snd (setitem key v c)) = events c @ trace_of (setitem key v) c"
proof (cases "key \<in> dom (mapping c)")
  case True
  with assms(1) have "key \<in> set (queue c)" by (simp add: invariant_def)
  from setitem_present [OF this True assms(2), where v = v] assms(2) show ?thesis
    by (simp add: trace_of_def held_throughout_def)
next
  case absent: False
  show ?thesis
  proof (cases "int (card (dom (mapping c))) = capacity c")
    case full: True
    show ?thesis
    proof (cases "queue c")
      case Nil
      from setitem_empty_full [OF absent full Nil assms(2), where v = v] assms(2) show ?thesis
        by (simp add: trace_of_def held_throughout_def)
    next
      case (Cons k ks)
      with assms(1) have "k \<in> dom (mapping c)" by (simp add: invariant_def)
      from setitem_evict [OF absent full Cons this assms(2), where v = v] assms(2) show ?thesis
        by (simp add: trace_of_def held_throughout_def)
    qed
  next
    case False
    from setitem_room [OF absent False assms(2), where v = v] assms(2) show ?thesis
      by (simp add: trace_of_def held_throughout_def)
  qed
qed

lemma delitem_trace:
  assumes "invariant c" "\<not> wlock c"
  shows "held_throughout (trace_of (delitem key) c) \<and> \<not> wlock (snd (delitem key c))"
proof (cases "mapping c key")
  case None
  from delitem_absent [OF None assms(2)] assms(2) show ?thesis
    by (simp add: trace_of_def held_throughout_def)
next
  case (Some v)
  from assms(1) Some have "key \<in> set (queue c)" by (auto simp: invariant_def)
  from delitem_present [OF Some this assms(2)] assms(2) show ?thesis
    by (simp add: trace_of_def held_throughout_def)
qed

lemma clear_trace:
  assumes "\<not> wlock c"
  shows "held_throughout (trace_of clear c) \<and> \<not> wlock (snd (clear c))"
  using clear_free [OF assms] assms by (simp add: trace_of_def held_throughout_def)

lemma get_trace: "trace_of (get key dflt) c = trace_of (getitem key) c"
  by (cases "getitem key c")
    (auto simp: trace_of_def get_def try_except_def return_def split: outcome.splits)

lemma unlocked_readers:
  "trace_of (contains key) c = [MappingAccess]"
  "trace_of len c = [MappingAccess]"
  "trace_of iter c = [QueueAccess]"
  "trace_of keys c = [QueueAccess, MappingAccess]"
  "trace_of reversed c = [QueueAccess]"
  by (simp_all add: trace_of_def contains_def len_def iter_def keys_def reversed_def prims)

lemma items_trace:
  assumes "invariant c"
  shows "trace_of items c = QueueAccess # replicate (length (queue c)) MappingAccess"
    "trace_of values_list c = QueueAccess # replicate (length (queue c)) MappingAccess"
proof -
  from assms have sub: "set (queue c) \<subseteq> dom (mapping c)" by (simp add: invariant_def)
  show "trace_of items c = QueueAccess # replicate (length (queue c)) MappingAccess"
    by (simp add: trace_of_def items_present [OF sub])
  show "trace_of values_list c = QueueAccess # replicate (length (queue c)) MappingAccess"
    by (simp add: trace_of_def values_list_def bindM_def return_def items_present [OF sub])
qed

lemma setdefault_absent_trace:
  assumes "invariant c" "\<not> wlock c" "mapping c key = None"
  shows "trace_of (setdefault key dflt) c =
      trace_of (getitem key) c @ trace_of (setitem key dflt) (snd (getitem key c)) \<and>
    held_throughout (trace_of (setitem key dflt) (snd (getitem key c))) \<and>
    \<not> wlock (snd (setdefault key dflt c))"
proof -
  let ?c1 = "c\<lparr>events := events c @ [LockAcquire, MappingAccess, LockRelease]\<rparr>"
  have g: "getitem key c = (Raises KeyError, ?c1)" by (rule getitem_absent [OF assms(3,2)])
  have h1: "invariant ?c1" "\<not> wlock ?c1" using assms by (simp_all add: invariant_events)
  have sd: "setdefault key dflt c =
      (case setitem key dflt ?c1 of
         (Returns u, s) \<Rightarrow> (Returns dflt, s) | (Raises e, s) \<Rightarrow> (Raises e, s)
       | (Blocks, s) \<Rightarrow> (Blocks, s))"
    by (simp add: setdefault_def try_except_def g bindM_def return_def)
  have ev: "snd (setdefault key dflt c) = snd (setitem key dflt ?c1)"
    by (cases "setitem key dflt ?c1") (auto simp: sd split: outcome.splits)
  note t = setitem_trace [OF h1, of key dflt]
  from t have "events (snd (setitem key dflt ?c1)) =
      (events c @ [LockAcquire, MappingAccess, LockRelease]) @ trace_of (setitem key dflt) ?c1"
    by simp
  then have "trace_of (setdefault key dflt) c =
      [LockAcquire, MappingAccess, LockRelease] @ trace_of (setitem key dflt) ?c1"
    by (simp add: trace_of_def [of "setdefault key dflt"] ev)
  moreover have "trace_of (getitem key) c = [LockAcquire, MappingAccess, LockRelease]"
    by (simp add: trace_of_def g)
  ultimately show ?thesis using t by (simp add: g ev)
qed

lemma setdefault_present_trace:
  assumes "invariant c" "\<not> wlock c" "mapping c key = Some v"
  shows "setdefault key dflt c = getitem key c"
proof -
  from getitem_present [OF assms(1,3,2)] obtain es where
    "getitem key c = (Returns v, c\<lparr>queue := remove1 key (queue c) @ [key], events := events c @ es\<rparr>)"
    by blast
  then show ?thesis by (simp add: setdefault_def try_except_def)
qed

section \<open>Objects, calls on them and copies\<close>

lemmas heap_prims = new_object_def new_dict_def new_deque_def new_lock_def set_attrs_def
  postinit_def init_def LRUCache_def bindM_def return_def

lemma LRUCache_any:
  "LRUCache cap h = (Returns (next_addr h),
     h\<lparr>instances := (instances h)(next_addr h \<mapsto>
         \<lparr>capacity_attr = cap, mapping_attr = Suc (next_addr h),
          queue_attr = Suc (Suc (next_addr h)), wlock_attr = Some (Suc (Suc (Suc (next_addr h))))\<rparr>),
       dicts := (dicts h)(Suc (next_addr h) \<mapsto> Map.empty),
       deques := (deques h)(Suc (Suc (next_addr h)) \<mapsto> []),
       locks := (locks h)(Suc (Suc (Suc (next_addr h))) \<mapsto> False),
       next_addr := Suc (Suc (Suc (Suc (next_addr h))))\<rparr>)"
  by (simp add: heap_prims)

lemma instance_okE:
  assumes "instance_ok h a"
  obtains i l m q b where "instances h a = Some i" "wlock_attr i = Some l"
    "dicts h (mapping_attr i) = Some m" "deques h (queue_attr i) = Some q" "locks h l = Some b"
    "a < next_addr h" "mapping_attr i < next_addr h" "queue_attr i < next_addr h"
    "l < next_addr h"
    "load h a = Some \<lparr>capacity = capacity_attr i, mapping = m, queue = q, wlock = b,
        events = event_log h\<rparr>"
  using assms by (auto simp: instance_ok_def load_def split: option.splits)

lemma invoke_ok:
  assumes "load h a = Some c"
  shows "invoke a m h = (fst (m c), store a (snd (m c)) h)"
  using assms by (simp add: invoke_def split: prod.splits)

lemma load_store_same:
  assumes "instance_ok h a"
  shows "load (store a c' h) a =
     Some (c'\<lparr>capacity := capacity_attr (the (instances h a))\<rparr>)"
  using assms by (rule instance_okE) (simp add: load_def store_def)

lemma instance_ok_store:
  assumes "instance_ok h a" "instance_ok h b"
  shows "instance_ok (store a c' h) b"
  using assms(1)
proof (rule instance_okE)
  fix i l m q x
  assume a: "instances h a = Some i" "wlock_attr i = Some l"
  from assms(2) show ?thesis
    by (rule instance_okE) (simp add: instance_ok_def store_def a)
qed

lemma separate_store: "separate (store a c' h) b d = separate h b d"
  by (simp add: separate_def store_def split: option.splits)

lemma contents_store_other:
  assumes "instance_ok h a" "separate h a b"
  shows "contents (store a c' h) b = contents h b"
  using assms(1)
proof (rule instance_okE)
  fix i l m q x
  assume a: "instances h a = Some i" "wlock_attr i = Some l"
  with assms(2) show ?thesis
    by (auto simp: contents_def load_def store_def separate_def split: option.splits)
qed

lemma invariant_alt:
  "invariant c \<longleftrightarrow> dom (mapping c) = set (queue c) \<and> distinct (queue c) \<and>
     int (length (queue c)) \<le> capacity c"
  by (auto simp: invariant_def distinct_card)

lemma length_moved: "x \<in> set xs \<Longrightarrow> length (remove1 x xs @ [x]) = length xs"
  using length_pos_if_in_set [of x xs] by (simp add: length_remove1)

lemma getitem_keeps:
  assumes "invariant c" "\<not> wlock c"
  shows "invariant (snd (getitem key c)) \<and> \<not> wlock (snd (getitem key c)) \<and>
     capacity (snd (getitem key c)) = capacity c"
proof (cases "mapping c key")
  case None
  from getitem_absent [OF None assms(2)] assms show ?thesis
    by (simp add: invariant_events)
next
  case (Some v)
  from getitem_present [OF assms(1) Some assms(2)] obtain es where
    g: "getitem key c = (Returns v, c\<lparr>queue := remove1 key (queue c) @ [key], events := events c @ es\<rparr>)"
    by blast
  from assms(1) Some have "key \<in> set (queue c)" by (auto simp: invariant_def)
  with assms length_moved [OF this] show ?thesis
    by (auto simp: g invariant_alt simp del: length_append)
qed

lemma setitem_keeps:
  assumes "invariant c" "\<not> wlock c"
  shows "invariant (snd (setitem key v c)) \<and> \<not> wlock (snd (setitem key v c)) \<and>
     capacity (snd (setitem key v c)) = capacity c"
proof (cases "key \<in> dom (mapping c)")
  case True
  with assms(1) have mem: "key \<in> set (queue c)" by (simp add: invariant_def)
  from setitem_present [OF mem True assms(2), where v = v] assms mem length_moved [OF mem]
  show ?thesis by (auto simp: invariant_alt simp del: length_append)
next
  case absent: False
  show ?thesis
  proof (cases "int (card (dom (mapping c))) = capacity c")
    case full: True
    show ?thesis
    proof (cases "queue c")
      case Nil
      from setitem_empty_full [OF absent full Nil assms(2), where v = v] assms show ?thesis
        by (simp add: invariant_events)
    next
      case (Cons k ks)
      with assms(1) have k: "k \<in> dom (mapping c)" by (simp add: invariant_def)
      from assms(1) absent have "key \<notin> set (queue c)" by (simp add: invariant_def)
      with setitem_evict [OF absent full Cons k assms(2), where v = v] assms Cons show ?thesis
        by (auto simp: invariant_alt)
    qed
  next
    case False
    with assms(1) have "int (length (queue c)) < capacity c"
      by (auto simp: invariant_def distinct_card)
    moreover from assms(1) absent have "key \<notin> set (queue c)" by (simp add: invariant_def)
    ultimately show ?thesis
      using setitem_room [OF absent False assms(2), where v = v] assms
      by (auto simp: invariant_alt)
  qed
qed

lemma setitem_returns:
  assumes "invariant c" "0 < capacity c" "\<not> wlock c"
  shows "fst (setitem key v c) = Returns ()"
proof (cases "key \<in> dom (mapping c)")
  case True
  with assms(1) have "key \<in> set (queue c)" by (simp add: invariant_def)
  from setitem_present [OF this True assms(3), where v = v] show ?thesis by simp
next
  case absent: False
  show ?thesis
  proof (cases "int (card (dom (mapping c))) = capacity c")
    case True
    with assms have "queue c \<noteq> []" by (auto simp: invariant_def)
    then obtain k ks where q: "queue c = k # ks" by (cases "queue c") auto
    with assms(1) have "k \<in> dom (mapping c)" by (simp add: invariant_def)
    from setitem_evict [OF absent True q this assms(3), where v = v] show ?thesis by simp
  next
    case False
    from setitem_room [OF absent False assms(3), where v = v] show ?thesis by simp
  qed
qed

lemma setitem_ignores_events:
  "fst (setitem key v (c\<lparr>events := es\<rparr>)) = fst (setitem key v c) \<and>
   mapping (snd (setitem key v (c\<lparr>events := es\<rparr>))) = mapping (snd (setitem key v c)) \<and>
   queue (snd (setitem key v (c\<lparr>events := es\<rparr>))) = queue (snd (setitem key v c))"
  by (auto simp: setitem_def prims split: list.splits option.splits)

lemma delitem_keeps:
  assumes "invariant c" "\<not> wlock c"
  shows "invariant (snd (delitem key c)) \<and> \<not> wlock (snd (delitem key c)) \<and>
     capacity (snd (delitem key c)) = capacity c"
proof (cases "mapping c key")
  case None
  from delitem_absent [OF None assms(2)] assms show ?thesis
    by (simp add: invariant_events)
next
  case (Some x)
  from assms(1) Some have mem: "key \<in> set (queue c)" by (auto simp: invariant_def)
  from delitem_present [OF Some mem assms(2)] assms mem show ?thesis
    by (auto simp: invariant_alt length_remove1)
qed

lemma clear_keeps:
  assumes "invariant c" "\<not> wlock c"
  shows "invariant (snd (clear c)) \<and> \<not> wlock (snd (clear c)) \<and>
     capacity (snd (clear c)) = capacity c"
  using clear_free [OF assms(2)] assms by (auto simp: invariant_alt)

lemma get_keeps:
  assumes "invariant c" "\<not> wlock c"
  shows "invariant (snd (get key dflt c)) \<and> \<not> wlock (snd (get key dflt c)) \<and>
     capacity (snd (get key dflt c)) = capacity c"
proof -
  have "snd (get key dflt c) = snd (getitem key c)"
    by (cases "getitem key c")
      (auto simp: get_def try_except_def return_def split: outcome.splits)
  with getitem_keeps [OF assms, of key] show ?thesis by simp
qed

lemma setdefault_keeps:
  assumes "invariant c" "\<not> wlock c"
  shows "invariant (snd (setdefault key dflt c)) \<and> \<not> wlock (snd (setdefault key dflt c)) \<and>
     capacity (snd (setdefault key dflt c)) = capacity c"
proof (cases "mapping c key")
  case None
  let ?c1 = "c\<lparr>events := events c @ [LockAcquire, MappingAccess, LockRelease]\<rparr>"
  have h1: "invariant ?c1" "\<not> wlock ?c1" using assms by (simp_all add: invariant_events)
  have "snd (setdefault key dflt c) = snd (setitem key dflt ?c1)"
    by (cases "setitem key dflt ?c1")
      (auto simp: setdefault_def try_except_def getitem_absent [OF None assms(2)]
        bindM_def return_def split: outcome.splits)
  with setitem_keeps [OF h1, of key dflt] show ?thesis by simp
next
  case (Some x)
  from setdefault_present_trace [OF assms Some, of dflt] getitem_keeps [OF assms, of key]
  show ?thesis by simp
qed

lemma readers_keep:
  assumes "invariant c" "\<not> wlock c"
  shows "\<forall>s \<in> {snd (items c), snd (values_list c), snd (keys c), snd (iter c), snd (reversed c),
       snd (contains key c), snd (len c)}.
     invariant s \<and> \<not> wlock s \<and> capacity s = capacity c"
proof -
  from assms(1) have sub: "set (queue c) \<subseteq> dom (mapping c)" by (simp add: invariant_def)
  have "snd (values_list c) = snd (items c)"
    by (simp add: values_list_def bindM_def return_def items_present [OF sub])
  moreover have "snd (keys c) = snd (len (snd (iter c)))"
    by (simp add: keys_def iter_def len_def prims)
  ultimately show ?thesis using assms
    by (simp add: items_present [OF sub] iter_def reversed_def contains_def len_def prims
        invariant_events)
qed

lemma copy_result:
  assumes "instances h a = Some i" "dicts h (mapping_attr i) = Some m"
    "deques h (queue_attr i) = Some q"
    "a < next_addr h" "mapping_attr i < next_addr h" "queue_attr i < next_addr h"
  shows "copy a h = (Returns (next_addr h),
     h\<lparr>instances := (instances h)(next_addr h \<mapsto>
         \<lparr>capacity_attr = capacity_attr i, mapping_attr = Suc (next_addr h),
          queue_attr = Suc (Suc (next_addr h)),
          wlock_attr = Some (Suc (Suc (Suc (next_addr h))))\<rparr>),
       dicts := (dicts h)(Suc (next_addr h) \<mapsto> m),
       deques := (deques h)(Suc (Suc (next_addr h)) \<mapsto> q),
       locks := (locks h)(Suc (Suc (Suc (next_addr h))) \<mapsto> False),
       next_addr := Suc (Suc (Suc (Suc (next_addr h)))),
       event_log := event_log h @ [MappingAccess, MappingAccess, QueueAccess, QueueAccess]\<rparr>)"
  using assms
  by (simp add: copy_def attr_capacity_def LRUCache_any update_mapping_def extend_queue_def
      bindM_def return_def)

lemma separate_sym: "separate h a b = separate h b a"
  by (auto simp: separate_def split: option.splits)

lemma run_op_store:
  assumes "x \<noteq> Copy" "load h a = Some c"
  shows "\<exists>c'. run_op a x h = store a c' h"
  using assms by (cases x) (auto simp: invoke_ok)

lemma run_op_store_keeps:
  assumes "x \<noteq> Copy" "load h a = Some c" "invariant c" "\<not> wlock c"
  shows "\<exists>c'. run_op a x h = store a c' h \<and> invariant c' \<and> \<not> wlock c' \<and>
     capacity c' = capacity c"
proof -
  note r = readers_keep [OF assms(3,4)]
  from assms(1) show ?thesis
  proof (cases x)
    case (Get key)
    with getitem_keeps [OF assms(3,4), of key] show ?thesis
      by (auto simp: invoke_ok [OF assms(2)])
  next
    case (GetDefault key dflt)
    with get_keeps [OF assms(3,4), of key dflt] show ?thesis
      by (auto simp: invoke_ok [OF assms(2)])
  next
    case (SetDefault key dflt)
    with setdefault_keeps [OF assms(3,4), of key dflt] show ?thesis
      by (auto simp: invoke_ok [OF assms(2)])
  next
    case (Set key v)
    with setitem_keeps [OF assms(3,4), of key v] show ?thesis
      by (auto simp: invoke_ok [OF assms(2)])
  next
    case (Delete key)
    with delitem_keeps [OF assms(3,4), of key] show ?thesis
      by (auto simp: invoke_ok [OF assms(2)])
  next
    case Clear
    with clear_keeps [OF assms(3,4)] show ?thesis
      by (auto simp: invoke_ok [OF assms(2)])
  next
    case Items
    with r show ?thesis by (auto simp: invoke_ok [OF assms(2)])
  next
    case Values
    with r show ?thesis by (auto simp: invoke_ok [OF assms(2)])
  next
    case Keys
    with r show ?thesis by (auto simp: invoke_ok [OF assms(2)])
  next
    case Iter
    with r show ?thesis by (auto simp: invoke_ok [OF assms(2)])
  next
    case Reversed
    with r show ?thesis by (auto simp: invoke_ok [OF assms(2)])
  next
    case (Contains key)
    with r [of key] show ?thesis by (auto simp: invoke_ok [OF assms(2)])
  next
    case Len
    with r show ?thesis by (auto simp: invoke_ok [OF assms(2)])
  qed simp
qed

lemma copy_frame:
  assumes "instance_ok h a" "instance_ok h b"
  shows "instance_ok (snd (copy a h)) b \<and> contents (snd (copy a h)) b = contents h b \<and>
     load (snd (copy a h)) b = map_option (\<lambda>c. c\<lparr>events := event_log (snd (copy a h))\<rparr>) (load h b) \<and>
     instances (snd (copy a h)) b = instances h b \<and>
     b \<noteq> next_addr h"
  using assms(1)
proof (rule instance_okE)
  fix i l m q x
  assume a: "instances h a = Some i" "dicts h (mapping_attr i) = Some m"
    "deques h (queue_attr i) = Some q" "a < next_addr h" "mapping_attr i < next_addr h"
    "queue_attr i < next_addr h"
  note c = copy_result [OF a]
  from assms(2) show ?thesis
    by (rule instance_okE) (auto simp: c instance_ok_def contents_def load_def)
qed

lemma copy_new:
  assumes "instance_ok h a"
  shows "fst (copy a h) = Returns (next_addr h) \<and> instance_ok (snd (copy a h)) (next_addr h) \<and>
     separate (snd (copy a h)) a (next_addr h) \<and>
     (case load h a of None \<Rightarrow> False | Some c \<Rightarrow>
        load (snd (copy a h)) (next_addr h) =
          Some (c\<lparr>wlock := False, events := event_log (snd (copy a h))\<rparr>))"
  using assms
proof (rule instance_okE)
  fix i l m q x
  assume a: "instances h a = Some i" "dicts h (mapping_attr i) = Some m"
    "deques h (queue_attr i) = Some q" "a < next_addr h" "mapping_attr i < next_addr h"
    "queue_attr i < next_addr h"
    and l: "wlock_attr i = Some l" "l < next_addr h" "locks h l = Some x"
  note c = copy_result [OF a]
  from a l show ?thesis
    by (auto simp: c instance_ok_def separate_def load_def)
qed

lemma copy_separate:
  assumes "instance_ok h a" "instance_ok h b" "instance_ok h d" "separate h b d"
  shows "separate (snd (copy a h)) b d"
proof -
  from copy_frame [OF assms(1,2)] have b: "instances (snd (copy a h)) b = instances h b"
    by simp
  from copy_frame [OF assms(1,3)] have d: "instances (snd (copy a h)) d = instances h d"
    by simp
  from assms(4) show ?thesis unfolding separate_def b d .
qed

lemma cache_ok_step:
  assumes "cache_ok h a"
  shows "cache_ok (run_op a x h) a \<and>
     map_option capacity (load (run_op a x h) a) = map_option capacity (load h a)"
proof -
  from assms have ok: "instance_ok h a" by (simp add: cache_ok_def)
  from assms obtain c where c: "load h a = Some c" "invariant c" "\<not> wlock c"
    by (auto simp: cache_ok_def split: option.splits)
  show ?thesis
  proof (cases "x = Copy")
    case True
    from copy_frame [OF ok ok] c True show ?thesis
      by (simp add: cache_ok_def invariant_events)
  next
    case False
    from run_op_store_keeps [OF False c] obtain c' where
      c': "run_op a x h = store a c' h" "invariant c'" "\<not> wlock c'" "capacity c' = capacity c"
      by blast
    from ok c(1) have "capacity_attr (the (instances h a)) = capacity c"
      by (auto elim!: instance_okE)
    with load_store_same [OF ok, of c'] c'(4)
    have "load (store a c' h) a = Some c'" by simp
    with c' c(1) instance_ok_store [OF ok ok, of c'] show ?thesis
      by (simp add: cache_ok_def)
  qed
qed

lemma cache_ok_run:
  assumes "cache_ok h a"
  shows "cache_ok (run_ops (map (Pair a) ops) h) a \<and>
     map_option capacity (load (run_ops (map (Pair a) ops) h) a) = map_option capacity (load h a)"
  using assms
proof (induction ops arbitrary: h)
  case Nil
  then show ?case by simp
next
  case (Cons x ops)
  from cache_ok_step [OF Cons.prems, of x] Cons.IH [of "run_op a x h"] show ?case
    by simp
qed

lemma LRUCache_ok:
  assumes "0 \<le> cap"
  shows "cache_ok (snd (LRUCache cap h)) (next_addr h) \<and>
     load (snd (LRUCache cap h)) (next_addr h) =
       Some \<lparr>capacity = cap, mapping = Map.empty, queue = [], wlock = False,
             events = event_log h\<rparr>"
  using assms
  by (simp add: LRUCache_any cache_ok_def instance_ok_def load_def invariant_def)

lemma pair_step:
  assumes "instance_ok h a" "instance_ok h b" "separate h a b"
  shows "instance_ok (run_op a x h) a \<and> instance_ok (run_op a x h) b \<and>
     separate (run_op a x h) a b \<and> contents (run_op a x h) b = contents h b"
proof (cases "x = Copy")
  case True
  from copy_frame [OF assms(1,1)] copy_frame [OF assms(1,2)]
    copy_separate [OF assms(1,1,2,3)] True
  show ?thesis by simp
next
  case False
  from assms(1) obtain c where "load h a = Some c" by (auto elim!: instance_okE)
  from run_op_store [OF False this] obtain c' where "run_op a x h = store a c' h" by blast
  with instance_ok_store [OF assms(1,1), of c'] instance_ok_store [OF assms(1,2), of c']
    contents_store_other [OF assms(1,3), of c']
    assms(3) show ?thesis
    by (simp add: separate_store)
qed

lemma pair_run:
  assumes "instance_ok h a" "instance_ok h b" "separate h a b" "fst ` set pre \<subseteq> {a, b}"
  shows "instance_ok (run_ops pre h) a \<and> instance_ok (run_ops pre h) b \<and>
     separate (run_ops pre h) a b"
  using assms
proof (induction pre arbitrary: h)
  case Nil
  then show ?case by simp
next
  case (Cons p pre)
  obtain t x where p: "p = (t, x)" by (cases p)
  with Cons.prems(4) have t: "t = a \<or> t = b" and rest: "fst ` set pre \<subseteq> {a, b}" by auto
  from t have "instance_ok (run_op t x h) a \<and> instance_ok (run_op t x h) b \<and>
     separate (run_op t x h) a b"
  proof
    assume "t = a"
    with pair_step [OF Cons.prems(1,2,3), of x] show ?thesis by simp
  next
    assume "t = b"
    from Cons.prems(3) have "separate h b a" by (simp add: separate_sym)
    from pair_step [OF Cons.prems(2,1) this, of x] \<open>t = b\<close> show ?thesis
      by (simp add: separate_sym)
  qed
  with Cons.IH [of "run_op t x h"] rest p show ?case by simp
qed

lemma one_sided:
  assumes "instance_ok h a" "instance_ok h b" "separate h a b"
  shows "contents (run_ops (map (Pair a) ops) h) b = contents h b"
  using assms
proof (induction ops arbitrary: h)
  case Nil
  then show ?case by simp
next
  case (Cons x ops)
  from pair_step [OF Cons.prems, of x] Cons.IH [of "run_op a x h"] show ?case
    by simp
qed

lemma h2_eq: "h2 =
     \<lparr>instances = [0 \<mapsto> \<lparr>capacity_attr = 2, mapping_attr = Suc 0, queue_attr = Suc (Suc 0),
         wlock_attr = Some (Suc (Suc (Suc 0)))\<rparr>],
      dicts = [Suc 0 \<mapsto> Map.empty], deques = [Suc (Suc 0) \<mapsto> []],
      locks = [Suc (Suc (Suc 0)) \<mapsto> False],
      next_addr = Suc (Suc (Suc (Suc 0))), event_log = []\<rparr>"
  by (simp add: h2_def LRUCache_any empty_heap_def)

lemmas eval_defs = invoke_def load_def store_def setitem_def getitem_def delitem_def prims
  contents_def observe_def

lemmas copy_defs = copy_def attr_capacity_def LRUCache_any update_mapping_def extend_queue_def

lemma h_ab_eq: "h_ab =
     \<lparr>instances = [0 \<mapsto> \<lparr>capacity_attr = 2, mapping_attr = Suc 0, queue_attr = Suc (Suc 0),
         wlock_attr = Some (Suc (Suc (Suc 0)))\<rparr>],
      dicts = [Suc 0 \<mapsto> [''a'' \<mapsto> 1, ''b'' \<mapsto> 2]], deques = [Suc (Suc 0) \<mapsto> [''a'', ''b'']],
      locks = [Suc (Suc (Suc 0)) \<mapsto> False],
      next_addr = Suc (Suc (Suc (Suc 0))),
      event_log = [LockAcquire, MappingAccess, MappingAccess, QueueAccess, MappingAccess,
        LockRelease, LockAcquire, MappingAccess, MappingAccess, QueueAccess, MappingAccess,
        LockRelease]\<rparr>"
  by (simp add: h_ab_def h2_eq eval_defs)

lemma reconstruct_result:
  "reconstruct d h = (Returns (next_addr h),
     h\<lparr>instances := (instances h)(next_addr h \<mapsto>
         \<lparr>capacity_attr = state_capacity d, mapping_attr = state_mapping d,
          queue_attr = state_queue d, wlock_attr = Some (Suc (next_addr h))\<rparr>),
       locks := (locks h)(Suc (next_addr h) \<mapsto> False),
       next_addr := Suc (Suc (next_addr h))\<rparr>)"
  by (simp add: reconstruct_def setstate_def heap_prims)

lemma bindM_Returns: "m s = (Returns x, s') \<Longrightarrow> bindM m f s = f x s'"
  by (simp add: bindM_def)

lemma fst_bindM_return:
  "fst (bindM m (\<lambda>x. return (f x)) s) =
     (case fst (m s) of Returns x \<Rightarrow> Returns (f x) | Raises e \<Rightarrow> Raises e | Blocks \<Rightarrow> Blocks)"
  by (cases "m s") (auto simp: bindM_def return_def split: outcome.splits)

lemma items_loop_depends:
  "mapping c' = mapping c \<Longrightarrow> fst (items_loop ks c') = fst (items_loop ks c)"
proof (induction ks arbitrary: c c')
  case Nil
  then show ?case by (simp add: return_def)
next
  case (Cons k ks)
  show ?case
  proof (cases "mapping c k")
    case None
    with Cons.prems show ?thesis by (simp add: bindM_def mapping_getitem_def)
  next
    case (Some v)
    from Cons.prems have "mapping (log_event MappingAccess c') = mapping (log_event MappingAccess c)"
      by (simp add: log_event_def)
    from Cons.IH [OF this] have "fst (items_loop ks (log_event MappingAccess c')) =
        fst (items_loop ks (log_event MappingAccess c))" .
    moreover have "items_loop (k # ks) c =
        bindM (items_loop ks) (\<lambda>rest. return ((k, v) # rest)) (log_event MappingAccess c)"
      "items_loop (k # ks) c' =
        bindM (items_loop ks) (\<lambda>rest. return ((k, v) # rest)) (log_event MappingAccess c')"
    proof -
      have "mapping_getitem k c = (Returns v, log_event MappingAccess c)"
        "mapping_getitem k c' = (Returns v, log_event MappingAccess c')"
        using Some Cons.prems by (simp_all add: mapping_getitem_def)
      then show "items_loop (k # ks) c =
          bindM (items_loop ks) (\<lambda>rest. return ((k, v) # rest)) (log_event MappingAccess c)"
        "items_loop (k # ks) c' =
          bindM (items_loop ks) (\<lambda>rest. return ((k, v) # rest)) (log_event MappingAccess c')"
        by (simp_all add: bindM_Returns)
    qed
    ultimately show ?thesis by (simp only: fst_bindM_return)
  qed
qed

lemma readers_depend:
  assumes "mapping c' = mapping c" "queue c' = queue c"
  shows "fst (items c') = fst (items c)" "fst (values_list c') = fst (values_list c)"
    "fst (keys c') = fst (keys c)" "fst (iter c') = fst (iter c)"
    "fst (reversed c') = fst (reversed c)" "fst (contains key c') = fst (contains key c)"
    "fst (len c') = fst (len c)"
proof -
  from assms(1) have "mapping (log_event QueueAccess c') = mapping (log_event QueueAccess c)"
    by (simp add: log_event_def)
  from items_loop_depends [OF this, of "queue c"]
  have l: "fst (items_loop (queue c) (log_event QueueAccess c')) =
      fst (items_loop (queue c) (log_event QueueAccess c))" .
  have "items c = bindM (items_loop (queue c)) (\<lambda>result. return (rev result))
        (log_event QueueAccess c)"
    "items c' = bindM (items_loop (queue c)) (\<lambda>result. return (rev result))
        (log_event QueueAccess c')"
  proof -
    have "queue_snapshot c = (Returns (queue c), log_event QueueAccess c)"
      "queue_snapshot c' = (Returns (queue c), log_event QueueAccess c')"
      using assms(2) by (simp_all add: queue_snapshot_def)
    then show "items c = bindM (items_loop (queue c)) (\<lambda>result. return (rev result))
        (log_event QueueAccess c)"
      "items c' = bindM (items_loop (queue c)) (\<lambda>result. return (rev result))
        (log_event QueueAccess c')"
      by (simp_all add: items_def bindM_Returns)
  qed
  with l show i: "fst (items c') = fst (items c)" by (simp only: fst_bindM_return)
  have "values_list c = bindM items (\<lambda>xs. return (map snd xs)) c"
    "values_list c' = bindM items (\<lambda>xs. return (map snd xs)) c'"
    by (simp_all add: values_list_def)
  with i show "fst (values_list c') = fst (values_list c)" by (simp only: fst_bindM_return)
  from assms show "fst (keys c') = fst (keys c)" "fst (iter c') = fst (iter c)"
    "fst (reversed c') = fst (reversed c)" "fst (contains key c') = fst (contains key c)"
    "fst (len c') = fst (len c)"
    by (simp_all add: keys_def iter_def reversed_def contains_def len_def prims)
qed

lemma invariant_capacity_zero:
  assumes "invariant c" "capacity c = 0"
  shows "mapping c = Map.empty" "queue c = []"
proof -
  from assms(1) have d: "dom (mapping c) = set (queue c)"
    unfolding invariant_def by blast
  from assms have "card (dom (mapping c)) = 0"
    unfolding invariant_def by linarith
  with d have "card (set (queue c)) = 0" by (simp only:)
  then show q: "queue c = []" by simp
  with d show "mapping c = Map.empty" by simp
qed

lemma reconstruct_same:
  assumes a: "instances h a = Some i" "dicts h (mapping_attr i) = Some m"
    "deques h (queue_attr i) = Some q"
    and la: "load h a = Some \<lparr>capacity = capacity_attr i, mapping = m, queue = q, wlock = b,
        events = event_log h\<rparr>"
    and d: "state_capacity d = capacity_attr i"
    "dicts h' (state_mapping d) = Some m" "deques h' (state_queue d) = Some q"
    and fresh: "state_mapping d < next_addr h'" "state_queue d < next_addr h'"
  shows "fst (reconstruct d h') = Returns (next_addr h') \<and>
     instance_ok (snd (reconstruct d h')) (next_addr h') \<and>
     contents h a \<noteq> None \<and>
     contents (snd (reconstruct d h')) (next_addr h') =
       map_option (\<lambda>(cap, m, q, b). (cap, m, q, False)) (contents h a) \<and>
     fst (invoke (next_addr h') items (snd (reconstruct d h'))) = fst (invoke a items h) \<and>
     fst (invoke (next_addr h') values_list (snd (reconstruct d h'))) =
       fst (invoke a values_list h) \<and>
     fst (invoke (next_addr h') keys (snd (reconstruct d h'))) = fst (invoke a keys h) \<and>
     fst (invoke (next_addr h') iter (snd (reconstruct d h'))) = fst (invoke a iter h) \<and>
     fst (invoke (next_addr h') reversed (snd (reconstruct d h'))) =
       fst (invoke a reversed h) \<and>
     fst (invoke (next_addr h') (contains key) (snd (reconstruct d h'))) =
       fst (invoke a (contains key) h) \<and>
     fst (invoke (next_addr h') len (snd (reconstruct d h'))) = fst (invoke a len h) \<and>
     map_option wlock_attr (instances (snd (reconstruct d h')) (next_addr h')) =
       Some (Some (Suc (next_addr h'))) \<and>
     locks (snd (reconstruct d h')) (Suc (next_addr h')) = Some False \<and>
     (\<forall>l < next_addr h'. locks (snd (reconstruct d h')) l = locks h' l)"
proof -
  let ?rv = "next_addr h'" and ?h = "snd (reconstruct d h')"
  from d fresh have lr: "load ?h ?rv = Some \<lparr>capacity = capacity_attr i, mapping = m,
      queue = q, wlock = False, events = event_log h'\<rparr>"
    by (simp add: reconstruct_result load_def)
  from d fresh have ok: "instance_ok ?h ?rv"
    by (simp add: reconstruct_result instance_ok_def)
  note r = readers_depend [of "\<lparr>capacity = capacity_attr i, mapping = m,
      queue = q, wlock = False, events = event_log h'\<rparr>" "\<lparr>capacity = capacity_attr i,
      mapping = m, queue = q, wlock = b, events = event_log h\<rparr>", simplified]
  have locks: "map_option wlock_attr (instances ?h ?rv) = Some (Some (Suc ?rv))"
    "locks ?h (Suc ?rv) = Some False" "\<forall>l < ?rv. locks ?h l = locks h' l"
    by (simp_all add: reconstruct_result)
  show ?thesis
    by (simp add: reconstruct_result [of d h', THEN arg_cong [of _ _ fst]] ok la lr
        contents_def invoke_ok [OF la] invoke_ok [OF lr] r locks)
qed

section \<open>Steps, the lock and concurrent runs\<close>

lemma task_induct [case_names Done Atom]:
  assumes "\<And>r. P (Done r)"
    and "\<And>f. (\<And>s t s'. f s = Some (t, s') \<Longrightarrow> P t) \<Longrightarrow> P (Atom f)"
  shows "P t"
proof (induction t)
  case (Done r)
  show ?case by (rule assms(1))
next
  case (Atom f)
  show ?case
  proof (rule assms(2))
    fix s t s'
    assume "f s = Some (t, s')"
    have "f s \<in> range f" by (rule rangeI)
    moreover from \<open>f s = Some (t, s')\<close> have "(t, s') \<in> set_option (f s)" by simp
    moreover have "t \<in> Basic_BNFs.fsts (t, s')" by simp
    ultimately show "P t" by (rule Atom.IH)
  qed
qed

lemma run_atom:
  assumes "\<And>s s'. p s = (Blocks, s') \<Longrightarrow> s' = s"
  shows "run (atom p) = p"
proof
  fix s
  obtain r s' where p: "p s = (r, s')" by (cases "p s")
  with assms [of s s'] show "run (atom p) s = p s"
    by (cases r) (simp_all add: atom_def)
qed

lemma run_bindT: "run (bindT t k) = bindM (run t) (\<lambda>x. run (k x))"
proof (induction t rule: task_induct)
  case (Done r)
  show ?case by (rule ext) (simp add: bindM_def split: outcome.splits)
next
  case (Atom f)
  show ?case
  proof
    fix s
    show "run (bindT (Atom f) k) s = bindM (run (Atom f)) (\<lambda>x. run (k x)) s"
    proof (cases "f s")
      case None
      then show ?thesis by (simp add: bindM_def)
    next
      case (Some a)
      obtain t s' where a: "a = (t, s')" by (cases a)
      from Atom.IH [of s t s'] Some a show ?thesis by (simp add: bindM_def)
    qed
  qed
qed

lemma run_try_exceptT: "run (try_exceptT t e h) = try_except (run t) e (run h)"
proof (induction t rule: task_induct)
  case (Done r)
  show ?case by (rule ext) (simp add: try_except_def split: outcome.splits)
next
  case (Atom f)
  show ?case
  proof
    fix s
    show "run (try_exceptT (Atom f) e h) s = try_except (run (Atom f)) e (run h) s"
    proof (cases "f s")
      case None
      then show ?thesis by (simp add: try_except_def)
    next
      case (Some a)
      obtain t s' where a: "a = (t, s')" by (cases a)
      from Atom.IH [of s t s'] Some a show ?thesis by (simp add: try_except_def)
    qed
  qed
qed

lemma run_finaliser:
  "run (finaliser fin r) s = (case run fin s of
      (Returns u, s'') \<Rightarrow> (r, s'')
    | (Raises e, s'') \<Rightarrow> (Raises e, s'')
    | (Blocks, s'') \<Rightarrow> (Blocks, s''))"
proof (induction fin arbitrary: s rule: task_induct)
  case (Done u)
  show ?case by (simp split: outcome.splits)
next
  case (Atom f)
  show ?case
  proof (cases "f s")
    case None
    then show ?thesis by simp
  next
    case (Some a)
    obtain t s' where a: "a = (t, s')" by (cases a)
    from Atom.IH [of s t s' s'] Some a show ?thesis by simp
  qed
qed

lemma run_try_finallyT: "run (try_finallyT t fin) = try_finally (run t) (run fin)"
proof (induction t rule: task_induct)
  case (Done r)
  show ?case by (rule ext) (simp add: try_finally_def run_finaliser split: outcome.splits)
next
  case (Atom f)
  show ?case
  proof
    fix s
    show "run (try_finallyT (Atom f) fin) s = try_finally (run (Atom f)) (run fin) s"
    proof (cases "f s")
      case None
      then show ?thesis by (simp add: try_finally_def)
    next
      case (Some a)
      obtain t s' where a: "a = (t, s')" by (cases a)
      from Atom.IH [of s t s'] Some a show ?thesis by (simp add: try_finally_def)
    qed
  qed
qed

lemma run_prims:
  "run (atom wlock_acquire) = (wlock_acquire :: (('k, 'v) lru_cache, unit) prog)"
  "run (atom wlock_release) = (wlock_release :: (('k, 'v) lru_cache, unit) prog)"
  "run (atom (mapping_getitem key)) = (mapping_getitem key :: (('k, 'v) lru_cache, 'v) prog)"
  "run (atom (mapping_contains key)) = (mapping_contains key :: (('k, 'v) lru_cache, bool) prog)"
  "run (atom mapping_len) = (mapping_len :: (('k, 'v) lru_cache, nat) prog)"
  "run (atom (mapping_delitem key)) = (mapping_delitem key :: (('k, 'v) lru_cache, unit) prog)"
  "run (atom (mapping_setitem key v)) = (mapping_setitem key v :: (('k, 'v) lru_cache, unit) prog)"
  "run (atom mapping_clear) = (mapping_clear :: (('k, 'v) lru_cache, unit) prog)"
  "run (atom queue_last) = (queue_last :: (('k, 'v) lru_cache, 'k) prog)"
  "run (atom (queue_remove key)) = (queue_remove key :: (('k, 'v) lru_cache, unit) prog)"
  "run (atom (queue_append key)) = (queue_append key :: (('k, 'v) lru_cache, unit) prog)"
  "run (atom queue_popleft) = (queue_popleft :: (('k, 'v) lru_cache, 'k) prog)"
  "run (atom queue_clear) = (queue_clear :: (('k, 'v) lru_cache, unit) prog)"
  "run (atom get_capacity) = (get_capacity :: (('k, 'v) lru_cache, int) prog)"
  by (rule run_atom; auto simp: prims split: option.splits list.splits if_splits)+

lemma run_return: "run (Done (Returns x)) = return x"
  by (simp add: return_def)

lemma run_if: "run (if b then t else u) = (if b then run t else run u)"
  by simp

lemma run_getitem_steps: "run (getitem_steps key) = getitem key"
  by (simp only: getitem_steps_def getitem_def run_bindT run_try_finallyT run_try_exceptT
      run_prims run_return run_if)

lemma run_setitem_steps: "run (setitem_steps key v) = setitem key v"
  by (simp only: setitem_steps_def setitem_def run_bindT run_try_finallyT run_try_exceptT
      run_prims run_return run_if)

lemma run_delitem_steps: "run (delitem_steps key) = delitem key"
  by (simp only: delitem_steps_def delitem_def run_bindT run_try_finallyT run_try_exceptT
      run_prims run_return run_if)

lemma run_clear_steps: "run clear_steps = clear"
  by (simp only: clear_steps_def clear_def run_bindT run_try_finallyT run_try_exceptT
      run_prims run_return run_if)

lemma bindT_atom:
  "bindT (atom p) k = Atom (\<lambda>s. case p s of
      (Returns x, s') \<Rightarrow> Some (k x, s')
    | (Raises e, s') \<Rightarrow> Some (Done (Raises e), s')
    | (Blocks, s') \<Rightarrow> None)"
  by (auto simp: atom_def split: prod.splits outcome.splits)

lemma keeps_lock_atom:
  assumes "\<And>s. wlock s \<Longrightarrow> fst (p s) \<noteq> Blocks \<and> wlock (snd (p s))"
  shows "keeps_lock (atom p)"
  unfolding atom_def
proof (rule keeps_lock.intros(2), intro allI impI)
  fix s :: "('a, 'b) lru_cache"
  assume "wlock s"
  from assms [OF this] obtain r s' where "p s = (r, s')" "r \<noteq> Blocks" "wlock s'"
    by (cases "p s") auto
  then show "\<exists>t s'. (case p s of (Blocks, s') \<Rightarrow> None | (r, s') \<Rightarrow> Some (Done r, s')) =
      Some (t, s') \<and> wlock s' \<and> keeps_lock t"
    by (cases r) (auto intro: keeps_lock.intros)
qed

lemma keeps_lock_bindT:
  assumes "keeps_lock t" "\<And>x. keeps_lock (k x)"
  shows "keeps_lock (bindT t k)"
  using assms(1)
proof (induction rule: keeps_lock.induct)
  case (1 r)
  with assms(2) show ?case by (cases r) (auto intro: keeps_lock.intros)
next
  case (2 f)
  show ?case
    unfolding bindT.simps
  proof (rule keeps_lock.intros(2), intro allI impI)
    fix s :: "('a, 'b) lru_cache"
    assume "wlock s"
    with 2 obtain t s' where "f s = Some (t, s')" "wlock s'" "keeps_lock (bindT t k)"
      by blast
    then show "\<exists>t' s''. map_option (map_prod (\<lambda>t. bindT t k) id) (f s) = Some (t', s'') \<and>
        wlock s'' \<and> keeps_lock t'"
      by simp
  qed
qed

lemma keeps_lock_try_exceptT:
  assumes "keeps_lock t" "keeps_lock h"
  shows "keeps_lock (try_exceptT t e h)"
  using assms(1)
proof (induction rule: keeps_lock.induct)
  case (1 r)
  with assms(2) show ?case by (cases r) (auto intro: keeps_lock.intros)
next
  case (2 f)
  show ?case
    unfolding try_exceptT.simps
  proof (rule keeps_lock.intros(2), intro allI impI)
    fix s :: "('a, 'b) lru_cache"
    assume "wlock s"
    with 2 obtain t s' where "f s = Some (t, s')" "wlock s'" "keeps_lock (try_exceptT t e h)"
      by blast
    then show "\<exists>t' s''. map_option (map_prod (\<lambda>t. try_exceptT t e h) id) (f s) = Some (t', s'') \<and>
        wlock s'' \<and> keeps_lock t'"
      by simp
  qed
qed

lemma keeps_lock_prims:
  "keeps_lock (atom (mapping_getitem key) :: (('k, 'v) lru_cache, 'v) task)"
  "keeps_lock (atom (mapping_contains key) :: (('k, 'v) lru_cache, bool) task)"
  "keeps_lock (atom mapping_len :: (('k, 'v) lru_cache, nat) task)"
  "keeps_lock (atom (mapping_delitem key) :: (('k, 'v) lru_cache, unit) task)"
  "keeps_lock (atom (mapping_setitem key v) :: (('k, 'v) lru_cache, unit) task)"
  "keeps_lock (atom mapping_clear :: (('k, 'v) lru_cache, unit) task)"
  "keeps_lock (atom queue_last :: (('k, 'v) lru_cache, 'k) task)"
  "keeps_lock (atom (queue_remove key) :: (('k, 'v) lru_cache, unit) task)"
  "keeps_lock (atom (queue_append key) :: (('k, 'v) lru_cache, unit) task)"
  "keeps_lock (atom queue_popleft :: (('k, 'v) lru_cache, 'k) task)"
  "keeps_lock (atom queue_clear :: (('k, 'v) lru_cache, unit) task)"
  "keeps_lock (atom get_capacity :: (('k, 'v) lru_cache, int) task)"
  by (rule keeps_lock_atom; simp add: prims split: option.splits list.splits)+

lemma keeps_lock_return: "keeps_lock (Done (Returns x))"
  by (simp add: keeps_lock.intros)

lemma in_section_try_finallyT:
  assumes "keeps_lock t"
  shows "in_section (try_finallyT t (atom wlock_release))"
  using assms
proof (induction rule: keeps_lock.induct)
  case (1 r)
  have "in_section (finaliser (atom wlock_release) r)"
    unfolding atom_def finaliser.simps
    by (rule in_section.intros) (simp add: wlock_release_def log_event_def)
  with 1 show ?case by (cases r) simp_all
next
  case (2 f)
  show ?case
    unfolding try_finallyT.simps
  proof (rule in_section.intros, intro allI impI)
    fix s :: "('a, 'b) lru_cache"
    assume "wlock s"
    with 2 obtain t s' where "f s = Some (t, s')" "wlock s'"
      "in_section (try_finallyT t (atom wlock_release))"
      by blast
    then show "\<exists>t' s''. map_option (map_prod (\<lambda>t. try_finallyT t (atom wlock_release)) id) (f s) =
        Some (t', s'') \<and>
        ((\<exists>r. t' = Done r) \<and> \<not> wlock s'' \<or> in_section t' \<and> wlock s'')"
      by simp
  qed
qed

lemma takes_lock_acquire:
  assumes "in_section t"
  shows "takes_lock (bindT (atom wlock_acquire) (\<lambda>_. t))"
  using assms by (simp add: takes_lock_def bindT_atom wlock_acquire_def log_event_def)

lemma in_section_result:
  assumes "in_section t"
  shows "in_section (bindT t (\<lambda>x. Done (Returns (g x))))"
  using assms
proof (induction rule: in_section.induct)
  case (1 f)
  show ?case
    unfolding bindT.simps
  proof (rule in_section.intros, intro allI impI)
    fix s :: "('a, 'b) lru_cache"
    assume "wlock s"
    with 1 obtain t s' where fs: "f s = Some (t, s')"
      and c: "(\<exists>r. t = Done r) \<and> \<not> wlock s' \<or>
        in_section (bindT t (\<lambda>x. Done (Returns (g x)))) \<and> wlock s'"
      by blast
    from c have "(\<exists>r. bindT t (\<lambda>x. Done (Returns (g x))) = Done r) \<and> \<not> wlock s' \<or>
        in_section (bindT t (\<lambda>x. Done (Returns (g x)))) \<and> wlock s'"
      by (auto split: outcome.splits)
    with fs show "\<exists>t' s''. map_option (map_prod (\<lambda>t. bindT t (\<lambda>x. Done (Returns (g x)))) id) (f s) =
        Some (t', s'') \<and>
        ((\<exists>r. t' = Done r) \<and> \<not> wlock s'' \<or> in_section t' \<and> wlock s'')"
      by simp
  qed
qed

lemma takes_lock_result:
  assumes "takes_lock t"
  shows "takes_lock (bindT t (\<lambda>x. Done (Returns (g x))))"
proof -
  from assms obtain f where t: "t = Atom f"
    and f: "\<And>s. if wlock s then f s = None
          else (\<exists>t' s'. f s = Some (t', s') \<and> wlock s' \<and> in_section t')"
    unfolding takes_lock_def by blast
  show ?thesis
    unfolding takes_lock_def t bindT.simps
  proof (intro exI conjI allI)
    show "Atom (\<lambda>s. map_option (map_prod (\<lambda>t. bindT t (\<lambda>x. Done (Returns (g x)))) id) (f s)) =
      Atom (\<lambda>s. map_option (map_prod (\<lambda>t. bindT t (\<lambda>x. Done (Returns (g x)))) id) (f s))" ..
  next
    fix s :: "('a, 'b) lru_cache"
    from f [of s] show "if wlock s
      then map_option (map_prod (\<lambda>t. bindT t (\<lambda>x. Done (Returns (g x)))) id) (f s) = None
      else \<exists>t' s'. map_option (map_prod (\<lambda>t. bindT t (\<lambda>x. Done (Returns (g x)))) id) (f s) =
          Some (t', s') \<and> wlock s' \<and> in_section t'"
      by (auto simp: in_section_result [where g = g])
  qed
qed

lemmas keeps_lock_rules = keeps_lock_bindT keeps_lock_try_exceptT keeps_lock_prims
  keeps_lock_return

lemma takes_lock_methods:
  "takes_lock (getitem_steps key)" "takes_lock (setitem_steps key v)"
  "takes_lock (delitem_steps key)" "takes_lock clear_steps"
  unfolding getitem_steps_def setitem_steps_def delitem_steps_def clear_steps_def
  by (intro takes_lock_acquire in_section_try_finallyT keeps_lock_rules; simp add: keeps_lock_rules)+

lemma takes_lock_call: "takes_lock (call_steps c)"
  by (cases c) (simp_all add: takes_lock_result takes_lock_methods)

lemma run_call_steps: "run (call_steps c) = call_prog c"
  by (cases c)
    (simp_all add: run_bindT run_getitem_steps run_setitem_steps run_delitem_steps
      run_clear_steps return_def)


lemma serial_snoc:
  "serial (cs @ [c]) s = (case serial cs s of (rs, s1) \<Rightarrow>
     (case call_prog c s1 of (r, s2) \<Rightarrow> (rs @ [r], s2)))"
  by (induction cs arbitrary: s) (simp_all split: prod.splits)

lemma serial_append:
  "fst (serial (cs @ [c]) s) = fst (serial cs s) @ [fst (call_prog c (snd (serial cs s)))]"
  "snd (serial (cs @ [c]) s) = snd (call_prog c (snd (serial cs s)))"
  by (simp_all add: serial_snoc split: prod.splits)

lemma done_in:
  assumes "map ((!) ts) p = map Done rs" "i \<in> set p"
  shows "\<exists>r. ts ! i = Done r"
proof -
  from assms(2) have "ts ! i \<in> set (map ((!) ts) p)" by simp
  with assms(1) have "ts ! i \<in> set (map Done rs)" by simp
  then show ?thesis by auto
qed

lemma map_nth_update_other:
  "i \<notin> set p \<Longrightarrow> map ((!) (ts[i := t])) p = map ((!) ts) p"
  by (induction p) auto

lemma in_section_Done: "\<not> in_section (Done r)"
  by (auto elim: in_section.cases)

lemma in_section_step:
  assumes "in_section (Atom f)" "wlock s" "f s = Some (t, s')"
  shows "(\<exists>r. t = Done r) \<and> \<not> wlock s' \<or> in_section t \<and> wlock s'"
proof -
  from assms(1) have "\<forall>s. wlock s \<longrightarrow> (\<exists>t s'. f s = Some (t, s') \<and>
      ((\<exists>r. t = Done r) \<and> \<not> wlock s' \<or> in_section t \<and> wlock s'))"
    by (rule in_section.cases) simp
  with assms(2) obtain t2 s2 where "f s = Some (t2, s2)"
    "(\<exists>r. t2 = Done r) \<and> \<not> wlock s2 \<or> in_section t2 \<and> wlock s2"
    by blast
  with assms(3) show ?thesis by simp
qed

lemma in_section_enabled:
  assumes "in_section t" "wlock s"
  shows "\<exists>f t' s'. t = Atom f \<and> f s = Some (t', s')"
  using assms by (auto elim!: in_section.cases)

lemma takes_lock_step:
  assumes "takes_lock (Atom f)" "f s = Some (t, s')"
  shows "\<not> wlock s \<and> wlock s' \<and> in_section t"
proof -
  from assms(1) have "if wlock s then f s = None
      else (\<exists>t' s'. f s = Some (t', s') \<and> wlock s' \<and> in_section t')"
    unfolding takes_lock_def by auto
  with assms(2) show ?thesis by (auto split: if_splits)
qed

lemma takes_lock_enabled:
  assumes "takes_lock t" "\<not> wlock s"
  shows "\<exists>f t' s'. t = Atom f \<and> f s = Some (t', s')"
proof -
  from assms(1) obtain f where "t = Atom f"
    and "if wlock s then f s = None
      else (\<exists>t' s'. f s = Some (t', s') \<and> wlock s' \<and> in_section t')"
    unfolding takes_lock_def by auto
  with assms(2) show ?thesis by auto
qed

lemma takes_lock_Done: "\<not> takes_lock (Done r)"
  by (simp add: takes_lock_def)

lemma thread_stepE:
  assumes "thread_step i (s, ts) = Some cf'"
  obtains f t s' where "cf' = (s', ts[i := t])" "i < length ts" "ts ! i = Atom f"
    "f s = Some (t, s')"
  using assms by (auto split: if_splits task.splits option.splits)

lemma schedule_snoc:
  "schedule (js @ [i]) cf =
     (case schedule js cf of None \<Rightarrow> None | Some cf' \<Rightarrow> thread_step i cf')"
  by (induction js arbitrary: cf) (auto split: option.splits)

lemma remdups_adj_snoc:
  "remdups_adj (xs @ [x]) =
     (if xs \<noteq> [] \<and> last xs = x then remdups_adj xs else remdups_adj xs @ [x])"
proof (cases xs rule: rev_cases)
  case Nil
  then show ?thesis by simp
next
  case (snoc ys y)
  then show ?thesis by (simp add: remdups_adj_append_two)
qed

lemma serial_inv_idle:
  assumes "length ts = length cs" "distinct (remdups_adj js)" "set js \<subseteq> {..<length cs}"
    "\<forall>i<length cs. i \<notin> set js \<longrightarrow> ts ! i = call_steps (cs ! i)"
    "\<not> wlock s"
    "map ((!) ts) (remdups_adj js) = map Done (fst (serial (map ((!) cs) (remdups_adj js)) s0))"
    "s = snd (serial (map ((!) cs) (remdups_adj js)) s0)"
  shows "serial_inv cs s0 js (s, ts)"
  unfolding serial_inv_def prod.case
  using assms by (intro conjI disjI1) simp_all

lemma serial_inv_busy:
  assumes "length ts = length cs" "distinct (remdups_adj js)" "set js \<subseteq> {..<length cs}"
    "\<forall>i<length cs. i \<notin> set js \<longrightarrow> ts ! i = call_steps (cs ! i)"
    "remdups_adj js = p @ [j]"
    "wlock s" "in_section (ts ! j)"
    "map ((!) ts) p = map Done (fst (serial (map ((!) cs) p) s0))"
    "run (ts ! j) s = call_prog (cs ! j) (snd (serial (map ((!) cs) p) s0))"
  shows "serial_inv cs s0 js (s, ts)"
  unfolding serial_inv_def prod.case
  using assms by (intro conjI disjI2 exI [of _ p] exI [of _ j]) simp_all

lemma serial_invD:
  assumes "serial_inv cs s0 js (s, ts)"
  shows "length ts = length cs" "distinct (remdups_adj js)" "set js \<subseteq> {..<length cs}"
    "\<And>i. i < length cs \<Longrightarrow> i \<notin> set js \<Longrightarrow> ts ! i = call_steps (cs ! i)"
    "\<not> wlock s \<and>
        map ((!) ts) (remdups_adj js) = map Done (fst (serial (map ((!) cs) (remdups_adj js)) s0)) \<and>
        s = snd (serial (map ((!) cs) (remdups_adj js)) s0)
      \<or> (\<exists>p j. remdups_adj js = p @ [j] \<and> wlock s \<and> in_section (ts ! j) \<and>
           map ((!) ts) p = map Done (fst (serial (map ((!) cs) p) s0)) \<and>
           run (ts ! j) s = call_prog (cs ! j) (snd (serial (map ((!) cs) p) s0)))"
proof -
  from assms have a: "length ts = length cs \<and> distinct (remdups_adj js) \<and>
     set js \<subseteq> {..<length cs} \<and>
     (\<forall>i<length cs. i \<notin> set js \<longrightarrow> ts ! i = call_steps (cs ! i)) \<and>
     (\<not> wlock s \<and>
        map ((!) ts) (remdups_adj js) = map Done (fst (serial (map ((!) cs) (remdups_adj js)) s0)) \<and>
        s = snd (serial (map ((!) cs) (remdups_adj js)) s0)
      \<or> (\<exists>p j. remdups_adj js = p @ [j] \<and> wlock s \<and> in_section (ts ! j) \<and>
           map ((!) ts) p = map Done (fst (serial (map ((!) cs) p) s0)) \<and>
           run (ts ! j) s = call_prog (cs ! j) (snd (serial (map ((!) cs) p) s0))))"
    unfolding serial_inv_def prod.case .
  from a show "length ts = length cs" "distinct (remdups_adj js)" "set js \<subseteq> {..<length cs}"
    by blast+
  from a show "\<And>i. i < length cs \<Longrightarrow> i \<notin> set js \<Longrightarrow> ts ! i = call_steps (cs ! i)"
    by blast
  from a show "\<not> wlock s \<and>
        map ((!) ts) (remdups_adj js) = map Done (fst (serial (map ((!) cs) (remdups_adj js)) s0)) \<and>
        s = snd (serial (map ((!) cs) (remdups_adj js)) s0)
      \<or> (\<exists>p j. remdups_adj js = p @ [j] \<and> wlock s \<and> in_section (ts ! j) \<and>
           map ((!) ts) p = map Done (fst (serial (map ((!) cs) p) s0)) \<and>
           run (ts ! j) s = call_prog (cs ! j) (snd (serial (map ((!) cs) p) s0)))"
    by blast
qed

lemma serial_inv_init:
  assumes "\<not> wlock s0"
  shows "serial_inv cs s0 [] (s0, map call_steps cs)"
  using assms by (intro serial_inv_idle) simp_all

lemma serial_inv_step:
  assumes inv: "serial_inv cs s0 js (s, ts)" and st: "thread_step i (s, ts) = Some cf'"
  shows "serial_inv cs s0 (js @ [i]) cf'"
proof -
  from st obtain f t s' where cf': "cf' = (s', ts[i := t])" and i: "i < length ts"
    and a: "ts ! i = Atom f" and fs: "f s = Some (t, s')"
    by (rule thread_stepE)
  let ?p = "remdups_adj js"
  from inv have len: "length ts = length cs" and d: "distinct ?p"
    and sub: "set js \<subseteq> {..<length cs}"
    and un: "\<And>i. i < length cs \<Longrightarrow> i \<notin> set js \<Longrightarrow> ts ! i = call_steps (cs ! i)"
    and disj: "\<not> wlock s \<and> map ((!) ts) ?p = map Done (fst (serial (map ((!) cs) ?p) s0)) \<and>
           s = snd (serial (map ((!) cs) ?p) s0)
         \<or> (\<exists>p j. ?p = p @ [j] \<and> wlock s \<and> in_section (ts ! j) \<and>
              map ((!) ts) p = map Done (fst (serial (map ((!) cs) p) s0)) \<and>
              run (ts ! j) s = call_prog (cs ! j) (snd (serial (map ((!) cs) p) s0)))"
    unfolding serial_inv_def by auto
  let ?ts = "ts[i := t]"
  have r: "run (Atom f) s = run t s'" using fs by simp
  have sub': "set (js @ [i]) \<subseteq> {..<length cs}" using sub i len by simp
  have un': "\<forall>k<length cs. k \<notin> set (js @ [i]) \<longrightarrow> ?ts ! k = call_steps (cs ! k)"
    using un by simp
  from disj show ?thesis
  proof (elim disjE conjE exE)
    assume nw: "\<not> wlock s"
      and fin: "map ((!) ts) ?p = map Done (fst (serial (map ((!) cs) ?p) s0))"
      and s: "s = snd (serial (map ((!) cs) ?p) s0)"
    from done_in [OF fin, of i] a have ip: "i \<notin> set js" by auto
    with un [of i] i len have "ts ! i = call_steps (cs ! i)" by simp
    with a takes_lock_call [of "cs ! i"] run_call_steps [of "cs ! i"]
    have tl: "takes_lock (Atom f)" and rc: "run (Atom f) = call_prog (cs ! i)"
      by (simp_all del: run.simps)
    from takes_lock_step [OF tl fs] have w: "wlock s'" and sec: "in_section t" by simp_all
    from ip have p': "remdups_adj (js @ [i]) = ?p @ [i]"
      by (auto simp: remdups_adj_snoc)
    have "distinct (remdups_adj (js @ [i]))" using d ip by (simp add: p')
    moreover have "in_section (?ts ! i)" using sec i by simp
    moreover have "map ((!) ?ts) ?p = map Done (fst (serial (map ((!) cs) ?p) s0))"
      using fin ip by (simp add: map_nth_update_other)
    moreover have "run (?ts ! i) s' = call_prog (cs ! i) (snd (serial (map ((!) cs) ?p) s0))"
    proof -
      have "run (?ts ! i) s' = run t s'" using i by simp
      also have "\<dots> = run (Atom f) s" by (rule r [symmetric])
      also have "\<dots> = call_prog (cs ! i) s" by (simp only: rc)
      finally show ?thesis by (simp only: s [symmetric])
    qed
    ultimately show ?thesis
      unfolding cf' using len w sub' un' p'
      by (intro serial_inv_busy [where p = ?p and j = i]) simp_all
  next
    fix p j
    assume p: "?p = p @ [j]" and w: "wlock s" and sec: "in_section (ts ! j)"
      and fin: "map ((!) ts) p = map Done (fst (serial (map ((!) cs) p) s0))"
      and rj: "run (ts ! j) s = call_prog (cs ! j) (snd (serial (map ((!) cs) p) s0))"
    from done_in [OF fin, of i] a have ip: "i \<notin> set p" by auto
    have "i \<in> set js"
    proof (rule ccontr)
      assume "i \<notin> set js"
      with un [of i] i len have "ts ! i = call_steps (cs ! i)" by simp
      with a takes_lock_call [of "cs ! i"] have "takes_lock (Atom f)" by simp
      from takes_lock_step [OF this fs] w show False by simp
    qed
    then have "i \<in> set ?p" by simp
    with ip p have ij: "i = j" by simp
    from p have js: "js \<noteq> []" by auto
    from p have "last ?p = j" by simp
    with js have lj: "last js = j" by simp
    from js lj ij have p': "remdups_adj (js @ [i]) = ?p" by (simp add: remdups_adj_snoc)
    from d p have jp: "j \<notin> set p" by simp
    from i ij have j: "j < length ts" by simp
    from sec a ij have "in_section (Atom f)" by simp
    from in_section_step [OF this w fs]
    show ?thesis
    proof (elim disjE conjE exE)
      fix r'
      assume t: "t = Done r'" and nw: "\<not> wlock s'"
      have "run (ts ! j) s = run (Atom f) s" using a ij by (simp del: run.simps)
      also have "\<dots> = run t s'" by (rule r)
      also have "\<dots> = (r', s')" by (simp add: t)
      finally have c: "call_prog (cs ! j) (snd (serial (map ((!) cs) p) s0)) = (r', s')"
        by (simp only: rj)
      have "map ((!) ?ts) ?p = map Done (fst (serial (map ((!) cs) ?p) s0))"
        using fin jp j c by (simp add: p ij map_nth_update_other serial_append t)
      moreover have "s' = snd (serial (map ((!) cs) ?p) s0)"
        using c by (simp add: p serial_append)
      ultimately show ?thesis
        unfolding cf' using len d sub' un' nw p'
        by (intro serial_inv_idle) simp_all
    next
      assume sec': "in_section t" and w': "wlock s'"
      have "in_section (?ts ! j)" using sec' j ij by simp
      moreover have "map ((!) ?ts) p = map Done (fst (serial (map ((!) cs) p) s0))"
        using fin jp by (simp add: ij map_nth_update_other)
      moreover have "run (?ts ! j) s' = call_prog (cs ! j) (snd (serial (map ((!) cs) p) s0))"
      proof -
        have "run (?ts ! j) s' = run t s'" using j ij by simp
        also have "\<dots> = run (Atom f) s" by (rule r [symmetric])
        also have "\<dots> = run (ts ! j) s" using a ij by (simp del: run.simps)
        finally show ?thesis by (simp only: rj)
      qed
      ultimately show ?thesis
        unfolding cf' using len d sub' un' w' p p'
        by (intro serial_inv_busy [where p = p and j = j]) simp_all
    qed
  qed
qed

lemma serial_inv_run:
  assumes "\<not> wlock s0" "schedule js (s0, map call_steps cs) = Some cf"
  shows "serial_inv cs s0 js cf"
  using assms(2)
proof (induction js arbitrary: cf rule: rev_induct)
  case Nil
  then have "cf = (s0, map call_steps cs)" by simp
  then show ?case by (simp only: serial_inv_init [OF assms(1)])
next
  case (snoc i js)
  from snoc.prems obtain cf1 where c1: "schedule js (s0, map call_steps cs) = Some cf1"
    and st: "thread_step i cf1 = Some cf"
    by (auto simp: schedule_snoc split: option.splits)
  obtain s ts where "cf1 = (s, ts)" by (cases cf1)
  with snoc.IH [OF c1] st show ?case by (auto intro: serial_inv_step)
qed


lemma runs_are_serial:
  fixes s0 :: "('k, 'v) lru_cache"
  assumes "\<not> wlock s0" "schedule js (s0, map call_steps cs) = Some (s, map Done rs)"
  shows "distinct (remdups_adj js) \<and> set js = {..<length cs} \<and>
     serial (map ((!) cs) (remdups_adj js)) s0 = (map ((!) rs) (remdups_adj js), s)"
proof -
  let ?p = "remdups_adj js"
    and ?ts = "map Done rs :: (('k, 'v) lru_cache, 'v option) task list"
  note inv = serial_invD [OF serial_inv_run [OF assms]]
  note len = inv(1)
  note d = inv(2)
  note sub = inv(3)
  note un = inv(4)
  note disj = inv(5)
  have all: "{..<length cs} \<subseteq> set js"
  proof
    fix i
    assume "i \<in> {..<length cs}"
    then have i: "i < length cs" by simp
    show "i \<in> set js"
    proof (rule ccontr)
      assume "i \<notin> set js"
      from un [OF i this] i len have "call_steps (cs ! i) = Done (rs ! i)" by simp
      with takes_lock_call [of "cs ! i"] show False by (simp add: takes_lock_Done)
    qed
  qed
  have nb: "\<not> (\<exists>p j. ?p = p @ [j] \<and> wlock s \<and> in_section (?ts ! j) \<and>
              map ((!) ?ts) p = map Done (fst (serial (map ((!) cs) p) s0)) \<and>
              run (?ts ! j) s = call_prog (cs ! j) (snd (serial (map ((!) cs) p) s0)))"
  proof (intro notI, elim exE conjE)
    fix p j
    assume p: "?p = p @ [j]" and sec: "in_section (?ts ! j)"
    from p have "j \<in> set ?p" by simp
    then have "j \<in> set js" by simp
    with sub len have "j < length rs" by auto
    with sec show False by (simp add: in_section_Done)
  qed
  from disj have "map ((!) ?ts) ?p = map Done (fst (serial (map ((!) cs) ?p) s0)) \<and>
      s = snd (serial (map ((!) cs) ?p) s0)"
  proof
    assume "\<not> wlock s \<and> map ((!) ?ts) ?p = map Done (fst (serial (map ((!) cs) ?p) s0)) \<and>
      s = snd (serial (map ((!) cs) ?p) s0)"
    then show ?thesis by (rule conjunct2)
  next
    assume "\<exists>p j. ?p = p @ [j] \<and> wlock s \<and> in_section (?ts ! j) \<and>
              map ((!) ?ts) p = map Done (fst (serial (map ((!) cs) p) s0)) \<and>
              run (?ts ! j) s = call_prog (cs ! j) (snd (serial (map ((!) cs) p) s0))"
    with nb show ?thesis by (rule notE)
  qed
  then have fin: "map ((!) ?ts) ?p = map Done (fst (serial (map ((!) cs) ?p) s0))"
    and s: "s = snd (serial (map ((!) cs) ?p) s0)"
    by simp_all
  let ?D = "Done :: 'v option outcome \<Rightarrow> (('k, 'v) lru_cache, 'v option) task"
  have "map ((!) ?ts) ?p = map ?D (map ((!) rs) ?p)"
    using sub len by (auto simp: subset_iff)
  with fin have "map ?D (map ((!) rs) ?p) = map ?D (fst (serial (map ((!) cs) ?p) s0))"
    by simp
  moreover have "inj ?D" by (rule injI) simp
  ultimately have "map ((!) rs) ?p = fst (serial (map ((!) cs) ?p) s0)"
    by (simp only: inj_map_eq_map)
  with s d sub all show ?thesis by (simp add: prod_eq_iff)
qed

lemma one_thread_busy:
  assumes "\<not> wlock s0" "schedule js (s0, map call_steps cs) = Some (s, ts)"
    and "i < length cs" "busy cs ts i"
  shows "wlock s \<and> js \<noteq> [] \<and> i = last js"
proof -
  let ?p = "remdups_adj js"
  note inv = serial_invD [OF serial_inv_run [OF assms(1,2)]]
  note un = inv(4)
  note disj = inv(5)
  from assms(4) have nd: "\<And>r. ts ! i \<noteq> Done r" and ns: "ts ! i \<noteq> call_steps (cs ! i)"
    by (simp_all add: busy_def)
  from un [OF assms(3)] ns have ijs: "i \<in> set js" by auto
  from disj show ?thesis
  proof (elim disjE conjE exE)
    assume "map ((!) ts) ?p = map Done (fst (serial (map ((!) cs) ?p) s0))"
    from done_in [OF this, of i] ijs nd show ?thesis by simp
  next
    fix p j
    assume p: "?p = p @ [j]" and w: "wlock s"
      and fin: "map ((!) ts) p = map Done (fst (serial (map ((!) cs) p) s0))"
    from done_in [OF fin, of i] nd have "i \<notin> set p" by auto
    moreover from ijs have "i \<in> set ?p" by simp
    ultimately have "i = j" using p by simp
    moreover from p have js: "js \<noteq> []" by auto
    moreover from p have "last ?p = j" by simp
    with js have "last js = j" by simp
    ultimately show ?thesis using w by simp
  qed
qed

lemma others_wait:
  assumes "\<not> wlock s0" "schedule js (s0, map call_steps cs) = Some (s, ts)"
    and "wlock s" "i \<noteq> last js"
  shows "thread_step i (s, ts) = None"
proof (cases "thread_step i (s, ts)")
  case None
  then show ?thesis .
next
  case (Some cf')
  then obtain f t s' where i: "i < length ts" and a: "ts ! i = Atom f" and fs: "f s = Some (t, s')"
    by (rule thread_stepE)
  let ?p = "remdups_adj js"
  note inv = serial_invD [OF serial_inv_run [OF assms(1,2)]]
  note len = inv(1)
  note un = inv(4)
  note disj = inv(5)
  from disj assms(3) obtain p j where p: "?p = p @ [j]"
    and fin: "map ((!) ts) p = map Done (fst (serial (map ((!) cs) p) s0))"
    by blast
  from p have js: "js \<noteq> []" by auto
  from p have "last ?p = j" by simp
  with js have lj: "last js = j" by simp
  from done_in [OF fin, of i] a have ip: "i \<notin> set p" by auto
  have "i \<notin> set js"
  proof
    assume "i \<in> set js"
    then have "i \<in> set ?p" by simp
    with ip p lj assms(4) show False by simp
  qed
  with un [of i] i len have "ts ! i = call_steps (cs ! i)" by simp
  with a takes_lock_call [of "cs ! i"] have "takes_lock (Atom f)" by simp
  from takes_lock_step [OF this fs] assms(3) show ?thesis by simp
qed

lemma some_thread_steps:
  assumes "\<not> wlock s0" "schedule js (s0, map call_steps cs) = Some (s, ts)"
  shows "(\<exists>rs. ts = map Done rs) \<or> (\<exists>i cf. thread_step i (s, ts) = Some cf)"
proof -
  let ?p = "remdups_adj js"
  note inv = serial_invD [OF serial_inv_run [OF assms(1,2)]]
  note len = inv(1)
  note sub = inv(3)
  note un = inv(4)
  note disj = inv(5)
  from disj show ?thesis
  proof (elim disjE conjE exE)
    assume nw: "\<not> wlock s"
      and fin: "map ((!) ts) ?p = map Done (fst (serial (map ((!) cs) ?p) s0))"
    show ?thesis
    proof (cases "\<exists>i<length cs. i \<notin> set js")
      case True
      then obtain i where i: "i < length cs" "i \<notin> set js" by blast
      from un [OF this] takes_lock_call [of "cs ! i"] have "takes_lock (ts ! i)" by simp
      from takes_lock_enabled [OF this nw] obtain f t' s' where
        "ts ! i = Atom f" "f s = Some (t', s')" by blast
      with i len have "thread_step i (s, ts) = Some (s', ts[i := t'])" by simp
      then show ?thesis by blast
    next
      case False
      have "\<forall>i<length ts. \<exists>r. ts ! i = Done r"
      proof (intro allI impI)
        fix i
        assume "i < length ts"
        with False len have "i \<in> set ?p" by auto
        from done_in [OF fin this] show "\<exists>r. ts ! i = Done r" .
      qed
      then have "\<forall>i<length ts. ts ! i = Done (case ts ! i of Done r \<Rightarrow> r | Atom f \<Rightarrow> Blocks)"
        by (auto split: task.splits)
      then have "ts = map Done (map (\<lambda>t. case t of Done r \<Rightarrow> r | Atom f \<Rightarrow> Blocks) ts)"
        by (intro nth_equalityI) simp_all
      then show ?thesis by blast
    qed
  next
    fix p j
    assume p: "?p = p @ [j]" and w: "wlock s" and sec: "in_section (ts ! j)"
    from p have "j \<in> set ?p" by simp
    then have "j \<in> set js" by simp
    with sub len have j: "j < length ts" by auto
    from in_section_enabled [OF sec w] obtain f t' s' where
      "ts ! j = Atom f" "f s = Some (t', s')" by blast
    with j have "thread_step j (s, ts) = Some (s', ts[j := t'])" by simp
    then show ?thesis by blast
  qed
qed


lemma blocked_calls:
  assumes "wlock c"
  shows "getitem key c = (Blocks, c)" "setitem key v c = (Blocks, c)"
    "delitem key c = (Blocks, c)" "clear c = (Blocks, c)"
  using assms by (simp_all add: getitem_def setitem_def delitem_def clear_def bindM_def
      wlock_acquire_def)

lemmas step_defs = getitem_steps_def setitem_steps_def delitem_steps_def clear_steps_def
  bindT_atom atom_def prims

section \<open>The claims\<close>

text \<open>
  Claim C1, as the code has it. On a cache that satisfies the invariants and whose lock is
  free, \<^verbatim>\<open>__setitem__\<close> leaves the capacity as it is and releases the lock. A key that
  is present gets the new value and moves to the back of the queue, and no key leaves the
  store. For an absent key and a store whose size equals the capacity, the key at the front
  of the queue leaves both the store and the queue, and the new key is appended; that is so
  when the capacity is positive, while on a cache of capacity 0, which is empty, there is
  no key to evict, \<^verbatim>\<open>__setitem__\<close> raises \<^verbatim>\<open>IndexError\<close> and the store and the queue
  stay as they are. For an absent key and a smaller store the new key is just appended.
  In every case but that of capacity 0 \<^verbatim>\<open>__setitem__\<close> returns (it raises nothing, and
  its value is \<^verbatim>\<open>None\<close>), so it always returns on a cache of positive capacity.
\<close>

theorem setitem_cases:
  assumes "invariant c" "\<not> wlock c"
  shows "capacity (snd (setitem key v c)) = capacity c \<and>
     \<not> wlock (snd (setitem key v c)) \<and>
     (0 < capacity c \<longrightarrow> fst (setitem key v c) = Returns ()) \<and>
     (if key \<in> dom (mapping c)
      then fst (setitem key v c) = Returns () \<and>
           mapping (snd (setitem key v c)) = (mapping c)(key \<mapsto> v) \<and>
           queue (snd (setitem key v c)) = remove1 key (queue c) @ [key] \<and>
           dom (mapping (snd (setitem key v c))) = dom (mapping c)
      else if int (card (dom (mapping c))) = capacity c
      then if capacity c = 0
           then fst (setitem key v c) = Raises IndexError \<and>
                mapping (snd (setitem key v c)) = mapping c \<and>
                queue (snd (setitem key v c)) = queue c
           else fst (setitem key v c) = Returns () \<and>
                mapping (snd (setitem key v c)) = ((mapping c)(hd (queue c) := None))(key \<mapsto> v) \<and>
                queue (snd (setitem key v c)) = tl (queue c) @ [key]
      else fst (setitem key v c) = Returns () \<and>
           int (card (dom (mapping c))) < capacity c \<and>
           mapping (snd (setitem key v c)) = (mapping c)(key \<mapsto> v) \<and>
           queue (snd (setitem key v c)) = queue c @ [key])"
proof (cases "key \<in> dom (mapping c)")
  case True
  with assms(1) have "key \<in> set (queue c)" by (simp add: invariant_def)
  from setitem_present [OF this True assms(2), where v = v] True assms(2) show ?thesis by auto
next
  case absent: False
  show ?thesis
  proof (cases "int (card (dom (mapping c))) = capacity c")
    case full: True
    show ?thesis
    proof (cases "capacity c = 0")
      case True
      from invariant_capacity_zero [OF assms(1) True] have q: "queue c = []" by simp
      from setitem_empty_full [OF absent full q assms(2), where v = v] absent full True assms(2)
      show ?thesis by simp
    next
      case False
      with full assms have "queue c \<noteq> []" by (auto simp: invariant_def)
      then obtain k ks where q: "queue c = k # ks" by (cases "queue c") auto
      with assms(1) have "k \<in> dom (mapping c)" by (simp add: invariant_def)
      from setitem_evict [OF absent full q this assms(2), where v = v] absent full q assms(2) False
      show ?thesis by simp
    qed
  next
    case False
    from False assms(1) have "int (card (dom (mapping c))) < capacity c"
      unfolding invariant_def by linarith
    with setitem_room [OF absent False assms(2), where v = v] absent False assms(2)
    show ?thesis by simp
  qed
qed

theorem setitem_cases_witness:
  "invariant c0 \<and> \<not> wlock c0 \<and>
   fst (setitem ''c'' 3 c0) = Returns () \<and>
   mapping (snd (setitem ''c'' 3 c0)) = [''b'' \<mapsto> 2, ''c'' \<mapsto> 3] \<and>
   queue (snd (setitem ''c'' 3 c0)) = [''b'', ''c'']"
proof -
  have h: "invariant c0" "\<not> wlock c0"
    by (simp_all add: inv_c0) (simp_all add: c0_def)
  have m: "(mapping c0)(''a'' := None) = [''b'' \<mapsto> 2]"
    by (rule ext) (simp add: c0_def)
  from setitem_cases [OF h, of "''c''" 3] h m show ?thesis
    by (simp add: c0_def)
qed

text \<open>
  The cache that \<^verbatim>\<open>LRUCache(0)\<close> makes satisfies the invariants, its store size equals
  its capacity, and \<^verbatim>\<open>__setitem__\<close> of an absent key raises \<^verbatim>\<open>IndexError\<close> on it.
\<close>

theorem setitem_raises_counterexample:
  "fst (LRUCache 0 (empty_heap :: (string, int) heap)) = Returns 0 \<and>
   load (snd (LRUCache 0 empty_heap)) 0 = Some e0 \<and>
   invariant e0 \<and> \<not> wlock e0 \<and> ''a'' \<notin> dom (mapping e0) \<and>
   int (card (dom (mapping e0))) = capacity e0 \<and>
   fst (setitem ''a'' 1 e0) = Raises IndexError"
proof -
  have "''a'' \<notin> dom (mapping e0)" "int (card (dom (mapping e0))) = capacity e0"
    "queue e0 = []" "\<not> wlock e0"
    by (simp_all add: e0_def)
  from setitem_empty_full [OF this, of 1] show ?thesis
    by (simp add: LRUCache_any empty_heap_def load_def) (simp add: e0_def invariant_def)
qed

text \<open>
  Claim C2. A cache is made with a positive capacity, in any heap, and any finite sequence of
  calls of \<^verbatim>\<open>__getitem__\<close>, \<^verbatim>\<open>get\<close>, \<^verbatim>\<open>setdefault\<close>, \<^verbatim>\<open>__setitem__\<close>, \<^verbatim>\<open>__delitem__\<close>,
  \<^verbatim>\<open>clear\<close>, \<^verbatim>\<open>copy\<close>, \<^verbatim>\<open>items\<close>, \<^verbatim>\<open>values\<close>, \<^verbatim>\<open>keys\<close>, \<^verbatim>\<open>__iter__\<close>,
  \<^verbatim>\<open>__reversed__\<close>, \<^verbatim>\<open>__contains__\<close> and \<^verbatim>\<open>__len__\<close> is made on it, whether they return
  or raise. Afterwards the keys of the store are the keys in the queue, no key is twice in
  the queue, the queue is as long as the store is large, and the store is at most as large
  as the capacity, which is the one given.
\<close>

theorem invariants_after_operations:
  assumes "0 < cap"
  shows "fst (LRUCache cap h) = Returns (next_addr h) \<and>
     (case load (run_ops (map (Pair (next_addr h)) ops) (snd (LRUCache cap h))) (next_addr h) of
        None \<Rightarrow> False
      | Some c \<Rightarrow> dom (mapping c) = set (queue c) \<and> distinct (queue c) \<and>
          length (queue c) = card (dom (mapping c)) \<and>
          int (card (dom (mapping c))) \<le> capacity c \<and> capacity c = cap)"
proof -
  from assms have "0 \<le> cap" by simp
  note i = LRUCache_ok [OF this, of h]
  from i have "cache_ok (snd (LRUCache cap h)) (next_addr h)" by simp
  from cache_ok_run [OF this, of ops] i show ?thesis
    by (auto simp: cache_ok_def LRUCache_any invariant_def distinct_card split: option.splits)
qed

theorem invariants_after_operations_witness:
  "0 < (2::int) \<and>
   fst (LRUCache 2 (empty_heap :: (string, int) heap)) = Returns 0 \<and>
   observe (run_ops (map (Pair 0)
       [Set ''a'' 1, Set ''b'' 2, Get ''a'', Set ''c'' 3, Copy, Delete ''c'', Delete ''c''])
       (snd (LRUCache 2 (empty_heap :: (string, int) heap)))) 0 =
     Some (2, [Some 1], [''a''], False)"
proof -
  have e: "snd (LRUCache 2 (empty_heap :: (string, int) heap)) = h2" by (simp add: h2_def)
  have n: "next_addr (empty_heap :: (string, int) heap) = 0" by (simp add: empty_heap_def)
  from invariants_after_operations [of 2 "empty_heap :: (string, int) heap"
      "[Set ''a'' 1, Set ''b'' 2, Get ''a'', Set ''c'' 3, Copy, Delete ''c'', Delete ''c'']"]
  have "fst (LRUCache 2 (empty_heap :: (string, int) heap)) = Returns 0"
    by (simp add: n)
  moreover have "observe (run_ops (map (Pair 0)
       [Set ''a'' 1, Set ''b'' 2, Get ''a'', Set ''c'' 3, Copy, Delete ''c'', Delete ''c''])
       h2) 0 = Some (2, [Some 1], [''a''], False)"
    by (simp add: h2_eq eval_defs copy_defs)
  ultimately show ?thesis by (simp add: e)
qed

text \<open>
  Claim C3, as the code has it. On a cache that satisfies the invariants and whose lock is
  free, \<^verbatim>\<open>setdefault\<close> of a key that is present is \<^verbatim>\<open>__getitem__\<close>: it returns the
  stored value, leaves the store and the capacity as they are, and moves the key to the back
  of the queue. For an absent key it does what \<^verbatim>\<open>__setitem__\<close> with the default does to
  the store and the queue, and its outcome follows that of \<^verbatim>\<open>__setitem__\<close>: it returns
  the default when the capacity is positive, and raises \<^verbatim>\<open>IndexError\<close> on a cache of
  capacity 0.
\<close>

theorem setdefault_cases:
  assumes "invariant c" "\<not> wlock c"
  shows "if key \<in> dom (mapping c)
     then setdefault key dflt c = getitem key c \<and>
          fst (setdefault key dflt c) = Returns (the (mapping c key)) \<and>
          mapping (snd (setdefault key dflt c)) = mapping c \<and>
          capacity (snd (setdefault key dflt c)) = capacity c \<and>
          queue (snd (setdefault key dflt c)) = remove1 key (queue c) @ [key]
     else fst (setdefault key dflt c) =
            (if capacity c = 0 then Raises IndexError else Returns dflt) \<and>
          fst (setdefault key dflt c) =
            (case fst (setitem key dflt c) of
               Returns u \<Rightarrow> Returns dflt | Raises e \<Rightarrow> Raises e | Blocks \<Rightarrow> Blocks) \<and>
          mapping (snd (setdefault key dflt c)) = mapping (snd (setitem key dflt c)) \<and>
          queue (snd (setdefault key dflt c)) = queue (snd (setitem key dflt c)) \<and>
          capacity (snd (setdefault key dflt c)) = capacity c"
proof (cases "mapping c key")
  case None
  let ?c1 = "c\<lparr>events := events c @ [LockAcquire, MappingAccess, LockRelease]\<rparr>"
  have h1: "invariant ?c1" "\<not> wlock ?c1"
    using assms by (simp_all add: invariant_events)
  have sd: "setdefault key dflt c =
      (case setitem key dflt ?c1 of
         (Returns u, s) \<Rightarrow> (Returns dflt, s) | (Raises e, s) \<Rightarrow> (Raises e, s)
       | (Blocks, s) \<Rightarrow> (Blocks, s))"
    by (simp add: setdefault_def try_except_def getitem_absent [OF None assms(2)]
        bindM_def return_def)
  obtain r s where rs: "setitem key dflt ?c1 = (r, s)" by (cases "setitem key dflt ?c1")
  from rs setitem_ignores_events [where key = key and v = dflt and c = c
      and es = "events c @ [LockAcquire, MappingAccess, LockRelease]"]
  have same: "r = fst (setitem key dflt c)"
    "mapping s = mapping (snd (setitem key dflt c))"
    "queue s = queue (snd (setitem key dflt c))"
    by simp_all
  from rs setitem_keeps [OF h1, of key dflt] have cap: "capacity s = capacity c" by simp
  have r: "r = (if capacity c = 0 then Raises IndexError else Returns ())"
  proof (cases "capacity c = 0")
    case True
    from invariant_capacity_zero [OF assms(1) True]
    have "key \<notin> dom (mapping ?c1)" "int (card (dom (mapping ?c1))) = capacity ?c1"
      "queue ?c1 = []"
      using True by simp_all
    from setitem_empty_full [OF this h1(2), of dflt] rs True show ?thesis by simp
  next
    case False
    with assms(1) have "0 < capacity ?c1" by (simp add: invariant_def)
    from setitem_returns [OF h1(1) this h1(2), of key dflt] rs False show ?thesis by simp
  qed
  from None sd rs r same(2,3) cap same(1) [symmetric] show ?thesis
    by (simp add: domIff)
next
  case (Some v)
  from getitem_present [OF assms(1) Some assms(2)] obtain es where
    "getitem key c = (Returns v, c\<lparr>queue := remove1 key (queue c) @ [key], events := events c @ es\<rparr>)"
    by blast
  with Some show ?thesis
    by (simp add: setdefault_def try_except_def domIff)
qed

theorem setdefault_cases_witness:
  "invariant c0 \<and> \<not> wlock c0 \<and>
   fst (setdefault ''a'' 0 c0) = Returns 1 \<and>
   queue (snd (setdefault ''a'' 0 c0)) = [''b'', ''a'']"
proof -
  have h: "invariant c0" "\<not> wlock c0"
    by (simp_all add: inv_c0) (simp_all add: c0_def)
  have a: "''a'' \<in> dom (mapping c0)" "the (mapping c0 ''a'') = 1"
    "remove1 ''a'' (queue c0) @ [''a''] = [''b'', ''a'']"
    by (simp_all add: c0_def)
  note t = setdefault_cases [OF h, of "''a''" 0, unfolded if_P [OF a(1)]]
  from t have "fst (setdefault ''a'' 0 c0) = Returns (the (mapping c0 ''a'')) \<and>
     queue (snd (setdefault ''a'' 0 c0)) = remove1 ''a'' (queue c0) @ [''a'']"
    by blast
  with h a show ?thesis by simp
qed

text \<open>
  On the queue \<^verbatim>\<open>[a, b]\<close>, \<^verbatim>\<open>setdefault\<close> of the present key \<^verbatim>\<open>a\<close> leaves the queue
  \<^verbatim>\<open>[b, a]\<close>; on the empty cache of capacity 0, \<^verbatim>\<open>setdefault\<close> of an absent key raises
  \<^verbatim>\<open>IndexError\<close>.
\<close>

theorem setdefault_promotes_counterexample:
  "invariant c0 \<and> \<not> wlock c0 \<and> ''a'' \<in> dom (mapping c0) \<and>
   fst (setdefault ''a'' 0 c0) = Returns 1 \<and>
   queue c0 = [''a'', ''b''] \<and>
   queue (snd (setdefault ''a'' 0 c0)) = [''b'', ''a''] \<and>
   queue (snd (setdefault ''a'' 0 c0)) \<noteq> queue c0 \<and>
   invariant e0 \<and> \<not> wlock e0 \<and> ''a'' \<notin> dom (mapping e0) \<and>
   fst (setdefault ''a'' 0 e0) = Raises IndexError"
proof -
  have "mapping c0 ''a'' = Some 1" "queue c0 = [''a''] @ [''b'']" "''b'' \<noteq> ''a''"
    "''a'' \<in> set [''a'']" "\<not> wlock c0"
    by (simp_all add: c0_def)
  from getitem_older [OF this] have a: "fst (setdefault ''a'' 0 c0) = Returns 1"
    "queue (snd (setdefault ''a'' 0 c0)) = [''b'', ''a'']"
    by (simp_all add: setdefault_def try_except_def c0_def)
  have b: "fst (setdefault ''a'' 0 e0) = Raises IndexError"
    by (simp add: setdefault_def getitem_def setitem_def prims e0_def)
  from a b show ?thesis
    by (simp add: inv_c0) (simp add: c0_def e0_def invariant_def)
qed

text \<open>
  Claim C4. On a cache that satisfies the invariants and whose lock is free,
  \<^verbatim>\<open>__getitem__\<close> raises \<^verbatim>\<open>KeyError\<close> exactly when the key is absent. For a key that is
  present it returns the stored value and moves the key to the back of the queue, and
  \<^verbatim>\<open>get\<close> does exactly the same. For an absent key \<^verbatim>\<open>get\<close> returns the default and
  leaves the store and the queue as they are: the key is not inserted. \<^verbatim>\<open>get\<close> never raises.
\<close>

theorem getitem_get:
  assumes "invariant c" "\<not> wlock c"
  shows "(fst (getitem key c) = Raises KeyError \<longleftrightarrow> key \<notin> dom (mapping c)) \<and>
     (if key \<in> dom (mapping c)
      then fst (getitem key c) = Returns (the (mapping c key)) \<and>
           queue (snd (getitem key c)) = remove1 key (queue c) @ [key] \<and>
           last (queue (snd (getitem key c))) = key \<and>
           mapping (snd (getitem key c)) = mapping c \<and>
           capacity (snd (getitem key c)) = capacity c \<and>
           get key dflt c = getitem key c
      else fst (get key dflt c) = Returns dflt \<and>
           mapping (snd (get key dflt c)) = mapping c \<and>
           queue (snd (get key dflt c)) = queue c \<and>
           capacity (snd (get key dflt c)) = capacity c \<and>
           key \<notin> dom (mapping (snd (get key dflt c)))) \<and>
     (\<forall>e. fst (get key dflt c) \<noteq> Raises e) \<and> fst (get key dflt c) \<noteq> Blocks"
proof (cases "mapping c key")
  case None
  from getitem_absent [OF None assms(2)] None show ?thesis
    by (simp add: get_def try_except_def return_def domIff)
next
  case (Some v)
  from getitem_present [OF assms(1) Some assms(2)] obtain es where
    "getitem key c = (Returns v, c\<lparr>queue := remove1 key (queue c) @ [key], events := events c @ es\<rparr>)"
    by blast
  with Some show ?thesis
    by (simp add: get_def try_except_def domIff)
qed

theorem getitem_get_witness:
  "invariant c0 \<and> \<not> wlock c0 \<and> fst (getitem ''a'' c0) = Returns 1 \<and>
   queue (snd (getitem ''a'' c0)) = [''b'', ''a''] \<and>
   fst (getitem ''z'' c0) = Raises KeyError \<and> fst (get ''z'' 0 c0) = Returns 0"
proof -
  have h: "invariant c0" "\<not> wlock c0"
    by (simp_all add: inv_c0) (simp add: c0_def)
  have a: "''a'' \<in> dom (mapping c0)" and z: "''z'' \<notin> dom (mapping c0)"
    by (simp_all add: c0_def)
  from getitem_get [OF h, of "''a''" 0] getitem_get [OF h, of "''z''" 0] h a z
  show ?thesis by (simp add: c0_def)
qed

text \<open>
  Claim C5. On a cache that satisfies the invariants and whose lock is free: for an absent
  key \<^verbatim>\<open>__delitem__\<close> and \<^verbatim>\<open>__getitem__\<close> raise \<^verbatim>\<open>KeyError\<close> and leave the store, the
  queue, the capacity and the lock as they were. For a key that is present
  \<^verbatim>\<open>__delitem__\<close> returns, the key is gone from the store and from the queue and nothing
  else changed, and a second \<^verbatim>\<open>__delitem__\<close> of the key raises \<^verbatim>\<open>KeyError\<close>.
\<close>

theorem delitem_cases:
  assumes "invariant c" "\<not> wlock c"
  shows "if key \<notin> dom (mapping c)
     then fst (delitem key c) = Raises KeyError \<and>
          mapping (snd (delitem key c)) = mapping c \<and>
          queue (snd (delitem key c)) = queue c \<and>
          capacity (snd (delitem key c)) = capacity c \<and>
          wlock (snd (delitem key c)) = wlock c \<and>
          fst (getitem key c) = Raises KeyError \<and>
          mapping (snd (getitem key c)) = mapping c \<and>
          queue (snd (getitem key c)) = queue c \<and>
          capacity (snd (getitem key c)) = capacity c \<and>
          wlock (snd (getitem key c)) = wlock c
     else fst (delitem key c) = Returns () \<and>
          mapping (snd (delitem key c)) = (mapping c)(key := None) \<and>
          queue (snd (delitem key c)) = remove1 key (queue c) \<and>
          key \<notin> dom (mapping (snd (delitem key c))) \<and>
          key \<notin> set (queue (snd (delitem key c))) \<and>
          capacity (snd (delitem key c)) = capacity c \<and>
          fst (delitem key (snd (delitem key c))) = Raises KeyError"
proof (cases "mapping c key")
  case None
  from delitem_absent [OF None assms(2)] getitem_absent [OF None assms(2)] None assms(2)
  show ?thesis by (simp add: domIff)
next
  case (Some v)
  from assms(1) Some have mem: "key \<in> set (queue c)" and dist: "distinct (queue c)"
    by (auto simp: invariant_def)
  let ?c1 = "c\<lparr>mapping := (mapping c)(key := None), queue := remove1 key (queue c),
       events := events c @ [LockAcquire, MappingAccess, QueueAccess, LockRelease]\<rparr>"
  have first: "delitem key c = (Returns (), ?c1)"
    by (rule delitem_present [OF Some mem assms(2)])
  have "mapping ?c1 key = None" "\<not> wlock ?c1" using assms(2) by simp_all
  from delitem_absent [OF this] have second: "fst (delitem key ?c1) = Raises KeyError"
    by simp
  from first second Some dist show ?thesis
    by (simp add: domIff)
qed

theorem delitem_cases_witness:
  "invariant c0 \<and> \<not> wlock c0 \<and>
   fst (delitem ''a'' c0) = Returns () \<and>
   queue (snd (delitem ''a'' c0)) = [''b''] \<and>
   fst (delitem ''a'' (snd (delitem ''a'' c0))) = Raises KeyError \<and>
   fst (delitem ''z'' c0) = Raises KeyError \<and>
   queue (snd (delitem ''z'' c0)) = [''a'', ''b'']"
proof -
  have h: "invariant c0" "\<not> wlock c0"
    by (simp_all add: inv_c0) (simp add: c0_def)
  have a: "''a'' \<in> dom (mapping c0)" and z: "''z'' \<notin> dom (mapping c0)"
    by (simp_all add: c0_def)
  from delitem_cases [OF h, of "''a''"] delitem_cases [OF h, of "''z''"] h a z
  show ?thesis by (simp add: c0_def)
qed

text \<open>
  Claim C6. On a cache that satisfies the invariants, \<^verbatim>\<open>items\<close> returns the pairs of key
  and stored value in the reverse of the queue order, most recently used first.
  \<^verbatim>\<open>__iter__\<close> yields the keys in the reverse of the queue order, \<^verbatim>\<open>__reversed__\<close> yields
  them in queue order, \<^verbatim>\<open>keys\<close> is the first component of \<^verbatim>\<open>items\<close> and \<^verbatim>\<open>values\<close> is
  the second. None of them changes the store or the queue.
\<close>

theorem items_order:
  assumes "invariant c"
  shows "fst (items c) = Returns (rev (map (\<lambda>k. (k, the (mapping c k))) (queue c))) \<and>
     fst (iter c) = Returns (rev (queue c)) \<and>
     fst (reversed c) = Returns (queue c) \<and>
     fst (keys c) = Returns (map fst (rev (map (\<lambda>k. (k, the (mapping c k))) (queue c)))) \<and>
     fst (values_list c) = Returns (map snd (rev (map (\<lambda>k. (k, the (mapping c k))) (queue c)))) \<and>
     (\<forall>m \<in> {snd (items c), snd (iter c), snd (reversed c), snd (keys c), snd (values_list c)}.
        mapping m = mapping c \<and> queue m = queue c \<and> capacity m = capacity c \<and> wlock m = wlock c)"
proof -
  from assms have sub: "set (queue c) \<subseteq> dom (mapping c)" by (simp add: invariant_def)
  have it: "iter c = (Returns (rev (queue c)), c\<lparr>events := events c @ [QueueAccess]\<rparr>)"
    by (simp add: iter_def bindM_def return_def queue_snapshot_def log_event_def)
  have re: "reversed c = (Returns (queue c), c\<lparr>events := events c @ [QueueAccess]\<rparr>)"
    by (simp add: reversed_def bindM_def return_def queue_snapshot_def log_event_def)
  have ke: "keys c = (Returns (rev (queue c)),
      c\<lparr>events := events c @ [QueueAccess, MappingAccess]\<rparr>)"
    by (simp add: keys_def len_def mapping_len_def log_event_def bindM_def return_def it)
  have va: "values_list c = (Returns (map snd (rev (map (\<lambda>k. (k, the (mapping c k))) (queue c)))),
      c\<lparr>events := events c @ QueueAccess # replicate (length (queue c)) MappingAccess\<rparr>)"
    by (simp add: values_list_def bindM_def return_def items_present [OF sub])
  have fsts: "map fst (rev (map (\<lambda>k. (k, the (mapping c k))) (queue c))) = rev (queue c)"
    by (simp add: rev_map comp_def)
  show ?thesis
    by (simp add: items_present [OF sub] it re ke va fsts)
qed

theorem items_order_witness:
  "invariant c0 \<and> fst (items c0) = Returns [(''b'', 2), (''a'', 1)] \<and>
   fst (iter c0) = Returns [''b'', ''a''] \<and> fst (reversed c0) = Returns [''a'', ''b''] \<and>
   fst (keys c0) = Returns [''b'', ''a''] \<and> fst (values_list c0) = Returns [2, 1]"
  using items_order [OF inv_c0] inv_c0 by (simp add: c0_def)

text \<open>
  Claim C7. \<^verbatim>\<open>copy\<close> on a well-formed instance returns a new instance, at the next
  free address, with the capacity, the store and the queue of the original and with a
  dict, a deque and a lock of its own; the lock is free. The original is as it was. From
  then on, after any calls on the two, no sequence of calls on the original changes the
  capacity, store, queue or lock of the copy, and no sequence of calls on the copy changes
  those of the original.
\<close>

theorem copy_independent:
  assumes "instance_ok h a"
  shows "fst (copy a h) = Returns (next_addr h) \<and> next_addr h \<noteq> a \<and>
     instance_ok (snd (copy a h)) (next_addr h) \<and>
     separate (snd (copy a h)) a (next_addr h) \<and>
     contents (snd (copy a h)) a = contents h a \<and>
     contents (snd (copy a h)) (next_addr h) =
       map_option (\<lambda>(cap, m, q, b). (cap, m, q, False)) (contents h a) \<and>
     contents h a \<noteq> None \<and>
     (\<forall>pre ops. fst ` set pre \<subseteq> {a, next_addr h} \<longrightarrow>
        contents (run_ops (map (Pair a) ops) (run_ops pre (snd (copy a h)))) (next_addr h) =
          contents (run_ops pre (snd (copy a h))) (next_addr h) \<and>
        contents (run_ops (map (Pair (next_addr h)) ops) (run_ops pre (snd (copy a h)))) a =
          contents (run_ops pre (snd (copy a h))) a)"
proof -
  let ?rv = "next_addr h" and ?h1 = "snd (copy a h)"
  note f = copy_frame [OF assms assms] and n = copy_new [OF assms]
  from f n have ok: "instance_ok ?h1 a" "instance_ok ?h1 ?rv" "separate ?h1 a ?rv"
    by simp_all
  have later: "contents (run_ops (map (Pair a) ops) (run_ops pre ?h1)) ?rv =
        contents (run_ops pre ?h1) ?rv \<and>
      contents (run_ops (map (Pair ?rv) ops) (run_ops pre ?h1)) a =
        contents (run_ops pre ?h1) a"
    if "fst ` set pre \<subseteq> {a, ?rv}" for pre and ops :: "('a, 'b) op list"
  proof -
    note p = pair_run [OF ok that]
    from p have s: "separate (run_ops pre ?h1) ?rv a" by (simp add: separate_sym)
    from p one_sided [of "run_ops pre ?h1" a ?rv ops]
      one_sided [of "run_ops pre ?h1" ?rv a ops] s
    show ?thesis by simp
  qed
  from assms obtain c where c: "load h a = Some c" by (auto elim!: instance_okE)
  with n have "load ?h1 ?rv = Some (c\<lparr>wlock := False, events := event_log ?h1\<rparr>)"
    by simp
  with c have new: "contents ?h1 ?rv =
      map_option (\<lambda>(cap, m, q, b). (cap, m, q, False)) (contents h a)"
    "contents h a \<noteq> None"
    by (simp_all add: contents_def)
  from f n new later show ?thesis by simp
qed

theorem copy_independent_witness:
  "instance_ok h_ab 0 \<and> fst (copy 0 h_ab) = Returns 4 \<and>
   observe (snd (copy 0 h_ab)) 4 = Some (2, [Some 1, Some 2], [''a'', ''b''], False) \<and>
   observe (run_ops [(0, Set ''c'' 3)] (snd (copy 0 h_ab))) 0 =
     Some (2, [Some 2, Some 3], [''b'', ''c''], False) \<and>
   observe (run_ops [(0, Set ''c'' 3)] (snd (copy 0 h_ab))) 4 =
     Some (2, [Some 1, Some 2], [''a'', ''b''], False) \<and>
   observe (run_ops [(4, Delete ''a'')] (run_ops [(0, Set ''c'' 3)] (snd (copy 0 h_ab)))) 4 =
     Some (2, [Some 2], [''b''], False) \<and>
   observe (run_ops [(4, Delete ''a'')] (run_ops [(0, Set ''c'' 3)] (snd (copy 0 h_ab)))) 0 =
     Some (2, [Some 2, Some 3], [''b'', ''c''], False)"
proof -
  have ok: "instance_ok h_ab 0" by (simp add: h_ab_eq instance_ok_def)
  have n: "next_addr h_ab = 4" by (simp add: h_ab_eq)
  from copy_independent [OF ok] have "fst (copy 0 h_ab) = Returns 4" by (simp add: n)
  with ok show ?thesis
    by (simp add: h_ab_eq eval_defs copy_defs)
qed

text \<open>
  Claim C8. \<^verbatim>\<open>__getstate__\<close> of a well-formed instance returns a state and changes
  nothing; the state has no lock, and \<^verbatim>\<open>__getstate__\<close> gives the same whatever the locks
  are. A state with the same capacity, whose dict and deque hold what those of the returned
  state hold (they may be the very same objects, as for the returned state itself, or a
  serialiser's copies, in the same heap or another one), is given to \<^verbatim>\<open>__setstate__\<close> on
  a new object. The new instance has the capacity, the store and the queue of the original,
  so \<^verbatim>\<open>items\<close>, \<^verbatim>\<open>values\<close>, \<^verbatim>\<open>keys\<close>, \<^verbatim>\<open>__iter__\<close>, \<^verbatim>\<open>__reversed__\<close>,
  \<^verbatim>\<open>__contains__\<close> and \<^verbatim>\<open>__len__\<close> give the same on both. Its lock is a new object, at
  an address that was not allocated, free whatever the lock of the original is, and no lock
  that existed is touched.
\<close>

theorem snapshot_roundtrip:
  assumes "instance_ok h a"
  shows "\<exists>d0. getstate a h = (Returns d0, h) \<and>
     (\<forall>ls. fst (getstate a (h\<lparr>locks := ls\<rparr>)) = Returns d0) \<and>
     state_mapping d0 < next_addr h \<and> state_queue d0 < next_addr h \<and>
     (\<forall>d h'. state_capacity d = state_capacity d0 \<and>
        dicts h' (state_mapping d) = dicts h (state_mapping d0) \<and>
        deques h' (state_queue d) = deques h (state_queue d0) \<and>
        state_mapping d < next_addr h' \<and> state_queue d < next_addr h' \<longrightarrow>
        fst (reconstruct d h') = Returns (next_addr h') \<and>
        instance_ok (snd (reconstruct d h')) (next_addr h') \<and>
        contents h a \<noteq> None \<and>
        contents (snd (reconstruct d h')) (next_addr h') =
          map_option (\<lambda>(cap, m, q, b). (cap, m, q, False)) (contents h a) \<and>
        fst (invoke (next_addr h') items (snd (reconstruct d h'))) = fst (invoke a items h) \<and>
        fst (invoke (next_addr h') values_list (snd (reconstruct d h'))) =
          fst (invoke a values_list h) \<and>
        fst (invoke (next_addr h') keys (snd (reconstruct d h'))) = fst (invoke a keys h) \<and>
        fst (invoke (next_addr h') iter (snd (reconstruct d h'))) = fst (invoke a iter h) \<and>
        fst (invoke (next_addr h') reversed (snd (reconstruct d h'))) =
          fst (invoke a reversed h) \<and>
        fst (invoke (next_addr h') (contains key) (snd (reconstruct d h'))) =
          fst (invoke a (contains key) h) \<and>
        fst (invoke (next_addr h') len (snd (reconstruct d h'))) = fst (invoke a len h) \<and>
        map_option wlock_attr (instances (snd (reconstruct d h')) (next_addr h')) =
          Some (Some (Suc (next_addr h'))) \<and>
        locks (snd (reconstruct d h')) (Suc (next_addr h')) = Some False \<and>
        (\<forall>l < next_addr h'. locks (snd (reconstruct d h')) l = locks h' l))"
  using assms
proof (rule instance_okE)
  fix i l m q b
  assume a: "instances h a = Some i" "dicts h (mapping_attr i) = Some m"
    "deques h (queue_attr i) = Some q"
    and lt: "mapping_attr i < next_addr h" "queue_attr i < next_addr h"
    and la: "load h a = Some \<lparr>capacity = capacity_attr i, mapping = m, queue = q, wlock = b,
        events = event_log h\<rparr>"
  let ?d0 = "\<lparr>state_capacity = capacity_attr i, state_mapping = mapping_attr i,
      state_queue = queue_attr i\<rparr>"
  from a(1) have g: "getstate a h = (Returns ?d0, h)"
    "\<forall>ls. fst (getstate a (h\<lparr>locks := ls\<rparr>)) = Returns ?d0"
    by (simp_all add: getstate_def)
  have "\<forall>d h'. state_capacity d = state_capacity ?d0 \<and>
        dicts h' (state_mapping d) = dicts h (state_mapping ?d0) \<and>
        deques h' (state_queue d) = deques h (state_queue ?d0) \<and>
        state_mapping d < next_addr h' \<and> state_queue d < next_addr h' \<longrightarrow>
        fst (reconstruct d h') = Returns (next_addr h') \<and>
        instance_ok (snd (reconstruct d h')) (next_addr h') \<and>
        contents h a \<noteq> None \<and>
        contents (snd (reconstruct d h')) (next_addr h') =
          map_option (\<lambda>(cap, m, q, b). (cap, m, q, False)) (contents h a) \<and>
        fst (invoke (next_addr h') items (snd (reconstruct d h'))) = fst (invoke a items h) \<and>
        fst (invoke (next_addr h') values_list (snd (reconstruct d h'))) =
          fst (invoke a values_list h) \<and>
        fst (invoke (next_addr h') keys (snd (reconstruct d h'))) = fst (invoke a keys h) \<and>
        fst (invoke (next_addr h') iter (snd (reconstruct d h'))) = fst (invoke a iter h) \<and>
        fst (invoke (next_addr h') reversed (snd (reconstruct d h'))) =
          fst (invoke a reversed h) \<and>
        fst (invoke (next_addr h') (contains key) (snd (reconstruct d h'))) =
          fst (invoke a (contains key) h) \<and>
        fst (invoke (next_addr h') len (snd (reconstruct d h'))) = fst (invoke a len h) \<and>
        map_option wlock_attr (instances (snd (reconstruct d h')) (next_addr h')) =
          Some (Some (Suc (next_addr h'))) \<and>
        locks (snd (reconstruct d h')) (Suc (next_addr h')) = Some False \<and>
        (\<forall>l < next_addr h'. locks (snd (reconstruct d h')) l = locks h' l)"
  proof (intro allI impI, elim conjE)
    fix d :: state_dict and h' :: "('a, 'b) heap"
    assume "state_capacity d = state_capacity ?d0"
      "dicts h' (state_mapping d) = dicts h (state_mapping ?d0)"
      "deques h' (state_queue d) = deques h (state_queue ?d0)"
      and fresh: "state_mapping d < next_addr h'" "state_queue d < next_addr h'"
    with a have d: "state_capacity d = capacity_attr i"
      "dicts h' (state_mapping d) = Some m" "deques h' (state_queue d) = Some q"
      by simp_all
    from reconstruct_same [OF a la d fresh]
    show "fst (reconstruct d h') = Returns (next_addr h') \<and>
        instance_ok (snd (reconstruct d h')) (next_addr h') \<and>
        contents h a \<noteq> None \<and>
        contents (snd (reconstruct d h')) (next_addr h') =
          map_option (\<lambda>(cap, m, q, b). (cap, m, q, False)) (contents h a) \<and>
        fst (invoke (next_addr h') items (snd (reconstruct d h'))) = fst (invoke a items h) \<and>
        fst (invoke (next_addr h') values_list (snd (reconstruct d h'))) =
          fst (invoke a values_list h) \<and>
        fst (invoke (next_addr h') keys (snd (reconstruct d h'))) = fst (invoke a keys h) \<and>
        fst (invoke (next_addr h') iter (snd (reconstruct d h'))) = fst (invoke a iter h) \<and>
        fst (invoke (next_addr h') reversed (snd (reconstruct d h'))) =
          fst (invoke a reversed h) \<and>
        fst (invoke (next_addr h') (contains key) (snd (reconstruct d h'))) =
          fst (invoke a (contains key) h) \<and>
        fst (invoke (next_addr h') len (snd (reconstruct d h'))) = fst (invoke a len h) \<and>
        map_option wlock_attr (instances (snd (reconstruct d h')) (next_addr h')) =
          Some (Some (Suc (next_addr h'))) \<and>
        locks (snd (reconstruct d h')) (Suc (next_addr h')) = Some False \<and>
        (\<forall>l < next_addr h'. locks (snd (reconstruct d h')) l = locks h' l)" .
  qed
  with g lt show ?thesis
    by (intro exI [of _ ?d0]) simp
qed

theorem snapshot_roundtrip_witness:
  "instance_ok h_held 0 \<and>
   fst (getstate 0 h_held) =
     Returns \<lparr>state_capacity = 2, state_mapping = 1, state_queue = 2\<rparr> \<and>
   fst (reconstruct \<lparr>state_capacity = 2, state_mapping = 1, state_queue = 2\<rparr> h_held) =
     Returns 4 \<and>
   observe h_held 0 = Some (2, [Some 1, Some 2], [''a'', ''b''], True) \<and>
   observe (snd (reconstruct \<lparr>state_capacity = 2, state_mapping = 1, state_queue = 2\<rparr> h_held)) 4 =
     Some (2, [Some 1, Some 2], [''a'', ''b''], False) \<and>
   fst (invoke 4 items
     (snd (reconstruct \<lparr>state_capacity = 2, state_mapping = 1, state_queue = 2\<rparr> h_held))) =
     Returns [(''b'', 2), (''a'', 1)]"
proof -
  let ?d = "\<lparr>state_capacity = 2, state_mapping = 1, state_queue = 2\<rparr>"
  have ok: "instance_ok h_held 0" by (simp add: h_held_def h_ab_eq instance_ok_def)
  have g: "fst (getstate 0 h_held) = Returns ?d"
    by (simp add: h_held_def h_ab_eq getstate_def)
  have n: "next_addr h_held = 4" by (simp add: h_held_def h_ab_eq)
  from snapshot_roundtrip [OF ok] obtain d0 where
    d0: "getstate 0 h_held = (Returns d0, h_held)"
    and lt: "state_mapping d0 < next_addr h_held" "state_queue d0 < next_addr h_held"
    and rt: "\<And>d h'. state_capacity d = state_capacity d0 \<and>
        dicts h' (state_mapping d) = dicts h_held (state_mapping d0) \<and>
        deques h' (state_queue d) = deques h_held (state_queue d0) \<and>
        state_mapping d < next_addr h' \<and> state_queue d < next_addr h' \<Longrightarrow>
        fst (reconstruct d h') = Returns (next_addr h')"
    by blast
  from d0 g have "d0 = ?d" by simp
  with rt [of ?d h_held] lt have "fst (reconstruct ?d h_held) = Returns 4" by (simp add: n)
  with ok g show ?thesis
    by (simp add: h_held_def h_ab_eq reconstruct_result eval_defs items_def)
qed

text \<open>
  Claim C9, as the code has it. On a cache that satisfies the invariants and whose lock is
  free: \<^verbatim>\<open>__getitem__\<close>, \<^verbatim>\<open>__setitem__\<close>, \<^verbatim>\<open>__delitem__\<close>, \<^verbatim>\<open>clear\<close> and \<^verbatim>\<open>get\<close> take
  the lock before their first access to the dict and the deque and release it after the
  last one, and so does \<^verbatim>\<open>setdefault\<close> of a key that is present. \<^verbatim>\<open>setdefault\<close> of an
  absent key takes and releases the lock twice, once in its \<^verbatim>\<open>__getitem__\<close> and once in
  its \<^verbatim>\<open>__setitem__\<close>. \<^verbatim>\<open>items\<close>, \<^verbatim>\<open>values\<close>, \<^verbatim>\<open>keys\<close>, \<^verbatim>\<open>__iter__\<close> and
  \<^verbatim>\<open>__reversed__\<close> never take the lock, and neither do \<^verbatim>\<open>__contains__\<close> and
  \<^verbatim>\<open>__len__\<close>. \<^verbatim>\<open>__contains__\<close> tells whether the key is in the store and leaves the
  queue and the store as they are. On a cache whose lock is held, \<^verbatim>\<open>__getitem__\<close>,
  \<^verbatim>\<open>__setitem__\<close>, \<^verbatim>\<open>__delitem__\<close> and \<^verbatim>\<open>clear\<close> wait and change nothing, while
  \<^verbatim>\<open>__contains__\<close> and \<^verbatim>\<open>__len__\<close> return.

  \<^verbatim>\<open>__getitem__\<close>, \<^verbatim>\<open>__setitem__\<close>, \<^verbatim>\<open>__delitem__\<close> and \<^verbatim>\<open>clear\<close> are linearizable.
  Their versions in steps, run alone, are the methods. Threads that each make one of these
  calls on the cache take their steps in any order that the lock allows. After every such
  run, a thread whose call has started and is not over is the one that took the last step,
  and the lock is held; while the lock is held no other thread can take a step; unless all
  calls are over some thread can take a step; and when all calls are over, the steps of
  each call were consecutive in the run, every thread has run, and the state and the
  outcomes are those of the calls made one at a time, in the order in which they ran.
\<close>

theorem lock_discipline:
  fixes c :: "('k, 'v) lru_cache"
  assumes "invariant c" "\<not> wlock c"
  shows "held_throughout (trace_of (getitem key) c) \<and>
     held_throughout (trace_of (setitem key v) c) \<and>
     held_throughout (trace_of (delitem key) c) \<and>
     held_throughout (trace_of clear c) \<and>
     held_throughout (trace_of (get key dflt) c) \<and>
     (if key \<in> dom (mapping c)
      then held_throughout (trace_of (setdefault key dflt) c)
      else trace_of (setdefault key dflt) c =
             trace_of (getitem key) c @ trace_of (setitem key dflt) (snd (getitem key c)) \<and>
           held_throughout (trace_of (setitem key dflt) (snd (getitem key c)))) \<and>
     LockAcquire \<notin> set (trace_of items c) \<and>
     LockAcquire \<notin> set (trace_of values_list c) \<and>
     LockAcquire \<notin> set (trace_of keys c) \<and>
     LockAcquire \<notin> set (trace_of iter c) \<and>
     LockAcquire \<notin> set (trace_of reversed c) \<and>
     LockAcquire \<notin> set (trace_of (contains key) c) \<and>
     LockAcquire \<notin> set (trace_of len c) \<and>
     fst (contains key c) = Returns (key \<in> dom (mapping c)) \<and>
     queue (snd (contains key c)) = queue c \<and>
     mapping (snd (contains key c)) = mapping c \<and>
     (\<forall>c'. wlock c' \<longrightarrow>
        getitem key c' = (Blocks, c') \<and> setitem key v c' = (Blocks, c') \<and>
        delitem key c' = (Blocks, c') \<and> clear c' = (Blocks, c') \<and>
        fst (contains key c') = Returns (key \<in> dom (mapping c')) \<and>
        fst (len c') = Returns (card (dom (mapping c')))) \<and>
     run (getitem_steps key) = getitem key \<and>
     run (setitem_steps key v) = setitem key v \<and>
     run (delitem_steps key) = delitem key \<and>
     run clear_steps = (clear :: (('k, 'v) lru_cache, unit) prog) \<and>
     (\<forall>cs js s ts. schedule js (c, map call_steps cs) = Some (s, ts) \<longrightarrow>
        (\<forall>i<length cs. busy cs ts i \<longrightarrow> wlock s \<and> js \<noteq> [] \<and> i = last js) \<and>
        (wlock s \<longrightarrow> (\<forall>i. i \<noteq> last js \<longrightarrow> thread_step i (s, ts) = None)) \<and>
        ((\<exists>rs. ts = map Done rs) \<or> (\<exists>i cf. thread_step i (s, ts) = Some cf)) \<and>
        (\<forall>rs. ts = map Done rs \<longrightarrow>
           distinct (remdups_adj js) \<and> set js = {..<length cs} \<and>
           serial (map ((!) cs) (remdups_adj js)) c = (map ((!) rs) (remdups_adj js), s)))"
proof -
  have sd: "if key \<in> dom (mapping c)
      then held_throughout (trace_of (setdefault key dflt) c)
      else trace_of (setdefault key dflt) c =
             trace_of (getitem key) c @ trace_of (setitem key dflt) (snd (getitem key c)) \<and>
           held_throughout (trace_of (setitem key dflt) (snd (getitem key c)))"
  proof (cases "mapping c key")
    case None
    from setdefault_absent_trace [OF assms None, of dflt] None show ?thesis
      by (simp add: domIff)
  next
    case (Some x)
    from setdefault_present_trace [OF assms Some, of dflt] getitem_trace [OF assms, of key] Some
    show ?thesis by (simp add: domIff trace_of_def)
  qed
  have co: "fst (contains key c) = Returns (key \<in> dom (mapping c)) \<and>
     queue (snd (contains key c)) = queue c \<and> mapping (snd (contains key c)) = mapping c"
    by (simp add: contains_def mapping_contains_def log_event_def)
  have bl: "\<forall>c' :: ('k, 'v) lru_cache. wlock c' \<longrightarrow>
        getitem key c' = (Blocks, c') \<and> setitem key v c' = (Blocks, c') \<and>
        delitem key c' = (Blocks, c') \<and> clear c' = (Blocks, c') \<and>
        fst (contains key c') = Returns (key \<in> dom (mapping c')) \<and>
        fst (len c') = Returns (card (dom (mapping c')))"
    by (simp add: blocked_calls contains_def len_def mapping_contains_def mapping_len_def)
  have conc: "\<forall>cs js s ts. schedule js (c, map call_steps cs) = Some (s, ts) \<longrightarrow>
        (\<forall>i<length cs. busy cs ts i \<longrightarrow> wlock s \<and> js \<noteq> [] \<and> i = last js) \<and>
        (wlock s \<longrightarrow> (\<forall>i. i \<noteq> last js \<longrightarrow> thread_step i (s, ts) = None)) \<and>
        ((\<exists>rs. ts = map Done rs) \<or> (\<exists>i cf. thread_step i (s, ts) = Some cf)) \<and>
        (\<forall>rs. ts = map Done rs \<longrightarrow>
           distinct (remdups_adj js) \<and> set js = {..<length cs} \<and>
           serial (map ((!) cs) (remdups_adj js)) c = (map ((!) rs) (remdups_adj js), s))"
  proof (intro allI impI)
    fix cs :: "('k, 'v) call list" and js s ts
    assume run: "schedule js (c, map call_steps cs) = Some (s, ts)"
    have "\<forall>i<length cs. busy cs ts i \<longrightarrow> wlock s \<and> js \<noteq> [] \<and> i = last js"
      using one_thread_busy [OF assms(2) run] by blast
    moreover have "wlock s \<longrightarrow> (\<forall>i. i \<noteq> last js \<longrightarrow> thread_step i (s, ts) = None)"
      using others_wait [OF assms(2) run] by blast
    moreover have "(\<exists>rs. ts = map Done rs) \<or> (\<exists>i cf. thread_step i (s, ts) = Some cf)"
      by (rule some_thread_steps [OF assms(2) run])
    moreover have "\<forall>rs. ts = map Done rs \<longrightarrow>
           distinct (remdups_adj js) \<and> set js = {..<length cs} \<and>
           serial (map ((!) cs) (remdups_adj js)) c = (map ((!) rs) (remdups_adj js), s)"
      using runs_are_serial [OF assms(2)] run by blast
    ultimately show "(\<forall>i<length cs. busy cs ts i \<longrightarrow> wlock s \<and> js \<noteq> [] \<and> i = last js) \<and>
        (wlock s \<longrightarrow> (\<forall>i. i \<noteq> last js \<longrightarrow> thread_step i (s, ts) = None)) \<and>
        ((\<exists>rs. ts = map Done rs) \<or> (\<exists>i cf. thread_step i (s, ts) = Some cf)) \<and>
        (\<forall>rs. ts = map Done rs \<longrightarrow>
           distinct (remdups_adj js) \<and> set js = {..<length cs} \<and>
           serial (map ((!) cs) (remdups_adj js)) c = (map ((!) rs) (remdups_adj js), s))"
      by (intro conjI)
  qed
  have tr: "held_throughout (trace_of (getitem key) c) \<and>
     held_throughout (trace_of (setitem key v) c) \<and>
     held_throughout (trace_of (delitem key) c) \<and>
     held_throughout (trace_of clear c) \<and>
     held_throughout (trace_of (get key dflt) c) \<and>
     LockAcquire \<notin> set (trace_of items c) \<and>
     LockAcquire \<notin> set (trace_of values_list c) \<and>
     LockAcquire \<notin> set (trace_of keys c) \<and>
     LockAcquire \<notin> set (trace_of iter c) \<and>
     LockAcquire \<notin> set (trace_of reversed c) \<and>
     LockAcquire \<notin> set (trace_of (contains key) c) \<and>
     LockAcquire \<notin> set (trace_of len c)"
    using getitem_trace [OF assms, of key] setitem_trace [OF assms, of key v]
      delitem_trace [OF assms, of key] clear_trace [OF assms(2)]
    by (simp add: get_trace items_trace [OF assms(1)] unlocked_readers)
  from tr sd co bl conc show ?thesis
    by (simp only: run_getitem_steps run_setitem_steps run_delitem_steps run_clear_steps
        simp_thms)
qed

theorem lock_discipline_witness:
  "invariant c0 \<and> \<not> wlock c0 \<and>
   held_throughout (trace_of (getitem ''a'') c0) \<and>
   trace_of (getitem ''a'') c0 =
     [LockAcquire, MappingAccess, QueueAccess, QueueAccess, QueueAccess, LockRelease] \<and>
   LockAcquire \<notin> set (trace_of items c0) \<and>
   schedule [1, 0] (c0, map call_steps [SetItem ''c'' 3, GetItem ''a'']) = None \<and>
   schedule [1, 1, 1, 1, 1, 1, 0, 0, 0, 0, 0, 0, 0, 0, 0]
     (c0, map call_steps [SetItem ''c'' 3, GetItem ''a'']) =
     Some (c_ac, [Done (Returns None), Done (Returns (Some 1))]) \<and>
   serial [GetItem ''a'', SetItem ''c'' 3] c0 = ([Returns (Some 1), Returns None], c_ac)"
proof -
  have h: "invariant c0" "\<not> wlock c0"
    by (simp_all add: inv_c0) (simp add: c0_def)
  have "mapping c0 ''a'' = Some 1" "queue c0 = [''a''] @ [''b'']" "''b'' \<noteq> ''a''"
    "''a'' \<in> set [''a'']"
    by (simp_all add: c0_def)
  from getitem_older [OF this h(2)] have
    t: "trace_of (getitem ''a'') c0 =
      [LockAcquire, MappingAccess, QueueAccess, QueueAccess, QueueAccess, LockRelease]"
    by (simp add: trace_of_def)
  let ?cs = "[SetItem ''c'' 3, GetItem ''a''] :: (string, int) call list"
  let ?js = "[1, 1, 1, 1, 1, 1, 0, 0, 0, 0, 0, 0, 0, 0, 0] :: nat list"
  let ?rs = "[Returns None, Returns (Some 1)] :: int option outcome list"
  have w: "schedule [1, 0] (c0, map call_steps ?cs) = None"
    by (simp add: step_defs c0_def)
  have r: "schedule ?js (c0, map call_steps ?cs) = Some (c_ac, map Done ?rs)"
    by (simp add: step_defs c0_def c_ac_def)
  note d = lock_discipline [OF h, of "''a''" 0 0]
  from d have "\<forall>cs js s ts. schedule js (c0, map call_steps cs) = Some (s, ts) \<longrightarrow>
        (\<forall>i<length cs. busy cs ts i \<longrightarrow> wlock s \<and> js \<noteq> [] \<and> i = last js) \<and>
        (wlock s \<longrightarrow> (\<forall>i. i \<noteq> last js \<longrightarrow> thread_step i (s, ts) = None)) \<and>
        ((\<exists>rs. ts = map Done rs) \<or> (\<exists>i cf. thread_step i (s, ts) = Some cf)) \<and>
        (\<forall>rs. ts = map Done rs \<longrightarrow>
           distinct (remdups_adj js) \<and> set js = {..<length cs} \<and>
           serial (map ((!) cs) (remdups_adj js)) c0 = (map ((!) rs) (remdups_adj js), s))"
    by (elim conjE)
  note e = this [THEN spec, THEN spec, THEN spec, THEN spec, THEN mp, OF r]
  note f = e [THEN conjunct2, THEN conjunct2, THEN conjunct2, THEN spec, THEN mp, OF refl]
  from f have "serial (map ((!) ?cs) (remdups_adj ?js)) c0 =
      (map ((!) ?rs) (remdups_adj ?js), c_ac)"
    by (elim conjE)
  then have s: "serial [GetItem ''a'', SetItem ''c'' 3] c0 =
      ([Returns (Some 1), Returns None], c_ac)"
    by simp
  from d have g: "held_throughout (trace_of (getitem ''a'') c0)"
    by (elim conjE)
  from d have i: "LockAcquire \<notin> set (trace_of items c0)"
    by (elim conjE)
  from h t w r s g i show ?thesis by simp
qed

theorem items_unguarded_counterexample:
  "invariant c0 \<and> \<not> wlock c0 \<and>
   trace_of items c0 = [QueueAccess, MappingAccess, MappingAccess] \<and>
   \<not> held_throughout (trace_of items c0) \<and>
   trace_of iter c0 = [QueueAccess] \<and>
   \<not> held_throughout (trace_of iter c0) \<and>
   trace_of (setdefault ''z'' 0) c0 =
     [LockAcquire, MappingAccess, LockRelease,
      LockAcquire, MappingAccess, MappingAccess, QueueAccess, MappingAccess, QueueAccess,
      MappingAccess, LockRelease] \<and>
   \<not> held_throughout (trace_of (setdefault ''z'' 0) c0)"
proof -
  have h: "invariant c0" "\<not> wlock c0"
    by (simp_all add: inv_c0) (simp add: c0_def)
  have i: "trace_of items c0 = [QueueAccess, MappingAccess, MappingAccess]"
    using items_trace(1) [OF inv_c0] by (simp add: c0_def)
  have z: "mapping c0 ''z'' = None" by (simp add: c0_def)
  let ?c1 = "c0\<lparr>events := events c0 @ [LockAcquire, MappingAccess, LockRelease]\<rparr>"
  have g: "getitem ''z'' c0 = (Raises KeyError, ?c1)" by (rule getitem_absent [OF z h(2)])
  have "''z'' \<notin> dom (mapping ?c1)" "int (card (dom (mapping ?c1))) = capacity ?c1"
    "queue ?c1 = ''a'' # [''b'']" "''a'' \<in> dom (mapping ?c1)" "\<not> wlock ?c1"
    by (simp_all add: c0_def)
  from setitem_evict [OF this, of 0] have
    s: "trace_of (setitem ''z'' 0) ?c1 =
      [LockAcquire, MappingAccess, MappingAccess, QueueAccess, MappingAccess, QueueAccess,
       MappingAccess, LockRelease]"
    by (simp add: trace_of_def)
  from setdefault_absent_trace [OF h z, of 0] g s have
    d: "trace_of (setdefault ''z'' 0) c0 =
     [LockAcquire, MappingAccess, LockRelease,
      LockAcquire, MappingAccess, MappingAccess, QueueAccess, MappingAccess, QueueAccess,
      MappingAccess, LockRelease]"
    by (simp add: trace_of_def [of "getitem ''z''"])
  show ?thesis
    by (simp add: h i d unlocked_readers held_throughout_def)
qed

text \<open>
  Claim C10. A cache of capacity 0 that satisfies the invariants is empty, and on it
  \<^verbatim>\<open>__setitem__\<close> raises \<^verbatim>\<open>IndexError\<close> (from \<^verbatim>\<open>_popleft\<close> on the empty deque) for every key
  and value. The store and the queue are as before, so the store is still empty and the
  invariants still hold, and the lock is free again.
\<close>

theorem setitem_capacity_zero:
  assumes "capacity c = 0" "invariant c" "\<not> wlock c"
  shows "mapping c = Map.empty \<and> queue c = [] \<and>
     fst (setitem key v c) = Raises IndexError \<and>
     mapping (snd (setitem key v c)) = mapping c \<and>
     queue (snd (setitem key v c)) = queue c \<and>
     capacity (snd (setitem key v c)) = capacity c \<and>
     wlock (snd (setitem key v c)) = wlock c \<and>
     invariant (snd (setitem key v c))"
proof -
  from assms(1,2) have q: "queue c = []" by (auto simp: invariant_def)
  with assms(2) have m: "mapping c = Map.empty" by (simp add: invariant_def)
  from m have absent: "key \<notin> dom (mapping c)" by simp
  from m assms(1) have full: "int (card (dom (mapping c))) = capacity c" by simp
  from setitem_empty_full [OF absent full q assms(3), where v = v] assms(2,3) q m
  show ?thesis by (simp add: invariant_def)
qed

theorem setitem_capacity_zero_witness:
  "capacity e0 = 0 \<and> invariant e0 \<and> \<not> wlock e0 \<and>
   fst (setitem ''a'' 1 e0) = Raises IndexError \<and>
   mapping (snd (setitem ''a'' 1 e0)) = Map.empty \<and>
   queue (snd (setitem ''a'' 1 e0)) = []"
proof -
  have h: "capacity e0 = 0" "invariant e0" "\<not> wlock e0"
    by (simp_all add: e0_def invariant_def)
  from setitem_capacity_zero [OF h, of "''a''" 1] h show ?thesis
    by simp
qed

end
